theory Spec2Isabelle
  imports
    Complex_Main
    "HOL-Library.Char_ord"
    "HOL-Library.List_Lexorder"
    "HOL-Library.Sublist"
    "HOL-Library.Word"
begin

unbundle bit_operations_syntax

section \<open>Python string primitives\<close>

text \<open>
  Strings are lists of characters. The embedding covers ASCII text: the character classes
  below are those of Python 3 (\<^verbatim>\<open>str.isspace\<close>, the regular-expression classes
  \<^verbatim>\<open>\s\<close> and \<^verbatim>\<open>\w\<close>, \<^verbatim>\<open>str.lower\<close>, \<^verbatim>\<open>str.upper\<close>) on the code points below 128;
  a character from 128 on is treated as a symbol that is neither a word character nor
  whitespace and has no case.
\<close>

definition is_space :: "char \<Rightarrow> bool" where
  "is_space c \<longleftrightarrow> (let n = (of_char c :: nat) in (9 \<le> n \<and> n \<le> 13) \<or> (28 \<le> n \<and> n \<le> 32))"

definition is_word :: "char \<Rightarrow> bool" where
  "is_word c \<longleftrightarrow> (let n = (of_char c :: nat) in
     (48 \<le> n \<and> n \<le> 57) \<or> (65 \<le> n \<and> n \<le> 90) \<or> n = 95 \<or> (97 \<le> n \<and> n \<le> 122))"

definition lower_char :: "char \<Rightarrow> char" where
  "lower_char c =
     (case map_of (zip ''ABCDEFGHIJKLMNOPQRSTUVWXYZ'' ''abcdefghijklmnopqrstuvwxyz'') c of
        Some d \<Rightarrow> d | None \<Rightarrow> c)"

definition upper_char :: "char \<Rightarrow> char" where
  "upper_char c =
     (case map_of (zip ''abcdefghijklmnopqrstuvwxyz'' ''ABCDEFGHIJKLMNOPQRSTUVWXYZ'') c of
        Some d \<Rightarrow> d | None \<Rightarrow> c)"

definition lower :: "string \<Rightarrow> string" where
  "lower s = map lower_char s"

definition upper :: "string \<Rightarrow> string" where
  "upper s = map upper_char s"

definition strip :: "string \<Rightarrow> string" where
  "strip s = rev (dropWhile is_space (rev (dropWhile is_space s)))"

text \<open>\<^verbatim>\<open>sub in s\<close> on strings.\<close>

fun contains :: "string \<Rightarrow> string \<Rightarrow> bool" where
  "contains sub [] = (sub = [])"
| "contains sub (c # cs) = (prefix sub (c # cs) \<or> contains sub cs)"

text \<open>\<^verbatim>\<open>s.split()\<close>: the maximal runs of non-whitespace characters.\<close>

fun split_acc :: "string \<Rightarrow> string \<Rightarrow> string list" where
  "split_acc cur [] = (if cur = [] then [] else [cur])"
| "split_acc cur (c # cs) =
     (if is_space c then (if cur = [] then split_acc [] cs else cur # split_acc [] cs)
      else split_acc (cur @ [c]) cs)"

definition split :: "string \<Rightarrow> string list" where
  "split s = split_acc [] s"

text \<open>\<^verbatim>\<open>s.split("; ")\<close>: the pieces between the occurrences of the separator, left to right.\<close>

fun split_semi_acc :: "string \<Rightarrow> string \<Rightarrow> string list" where
  "split_semi_acc cur [] = [cur]"
| "split_semi_acc cur [c] = [cur @ [c]]"
| "split_semi_acc cur (c # d # cs) =
     (if c = CHR '';'' \<and> d = CHR '' '' then cur # split_semi_acc [] cs
      else split_semi_acc (cur @ [c]) (d # cs))"

definition split_semi :: "string \<Rightarrow> string list" where
  "split_semi s = split_semi_acc [] s"

section \<open>Regular expressions\<close>

text \<open>
  The fragment of Python's \<^verbatim>\<open>re\<close> syntax that the program's patterns use. A position is
  the character just consumed (if any) and the rest of the input; \<open>rmatch\<close> lists the
  positions at which a match of the expression starting here can end, in the order in which
  the backtracking matcher tries them, so that the head of the list is the match Python
  reports.
\<close>

datatype regex =
    Eps
  | Lit char
  | Cls "char \<Rightarrow> bool"
  | Seq regex regex
  | Alt regex regex
  | Opt regex
  | Star "char \<Rightarrow> bool"
  | WordB
  | Bol
  | Eol

type_synonym pos = "char option \<times> string"

fun stars :: "(char \<Rightarrow> bool) \<Rightarrow> pos \<Rightarrow> pos list" where
  "stars p (prev, []) = [(prev, [])]"
| "stars p (prev, c # cs) =
     (if p c then stars p (Some c, cs) @ [(prev, c # cs)] else [(prev, c # cs)])"

definition word_boundary :: "pos \<Rightarrow> bool" where
  "word_boundary q =
     ((case fst q of None \<Rightarrow> False | Some c \<Rightarrow> is_word c)
        \<noteq> (case snd q of [] \<Rightarrow> False | c # _ \<Rightarrow> is_word c))"

fun rmatch :: "bool \<Rightarrow> regex \<Rightarrow> pos \<Rightarrow> pos list" where
  "rmatch ic Eps q = [q]"
| "rmatch ic (Lit a) (prev, s) =
     (case s of [] \<Rightarrow> []
      | c # cs \<Rightarrow> if (if ic then lower_char c = lower_char a else c = a) then [(Some c, cs)] else [])"
| "rmatch ic (Cls p) (prev, s) =
     (case s of [] \<Rightarrow> [] | c # cs \<Rightarrow> if p c then [(Some c, cs)] else [])"
| "rmatch ic (Seq r1 r2) q = concat (map (rmatch ic r2) (rmatch ic r1 q))"
| "rmatch ic (Alt r1 r2) q = rmatch ic r1 q @ rmatch ic r2 q"
| "rmatch ic (Opt r) q = rmatch ic r q @ [q]"
| "rmatch ic (Star p) q = stars p q"
| "rmatch ic WordB q = (if word_boundary q then [q] else [])"
| "rmatch ic Bol q = (if fst q = None then [q] else [])"
| "rmatch ic Eol q = (if snd q = [] \<or> snd q = [CHR 0x0A] then [q] else [])"

fun lits :: "string \<Rightarrow> regex" where
  "lits [] = Eps"
| "lits [c] = Lit c"
| "lits (c # cs) = Seq (Lit c) (lits cs)"

fun seqs :: "regex list \<Rightarrow> regex" where
  "seqs [] = Eps"
| "seqs [r] = r"
| "seqs (r # rs) = Seq r (seqs rs)"

fun alts :: "regex list \<Rightarrow> regex" where
  "alts [] = Eps"
| "alts [r] = r"
| "alts (r # rs) = Alt r (alts rs)"

text \<open>\<^verbatim>\<open>re.search(pattern, s)\<close> as a truth value: some position of \<open>s\<close> starts a match.\<close>

fun re_search_from :: "bool \<Rightarrow> regex \<Rightarrow> char option \<Rightarrow> string \<Rightarrow> bool" where
  "re_search_from ic r prev [] = (rmatch ic r (prev, []) \<noteq> [])"
| "re_search_from ic r prev (c # cs) =
     (rmatch ic r (prev, c # cs) \<noteq> [] \<or> re_search_from ic r (Some c) cs)"

definition re_search :: "bool \<Rightarrow> regex \<Rightarrow> string \<Rightarrow> bool" where
  "re_search ic r s = re_search_from ic r None s"

text \<open>
  \<^verbatim>\<open>re.sub(pattern, repl, s)\<close>: the leftmost match is replaced and the scan goes on behind
  it. No pattern that the program passes to \<^verbatim>\<open>re.sub\<close> matches the empty string; at an
  empty match the model copies the character and moves on.
\<close>

function re_sub_from :: "bool \<Rightarrow> regex \<Rightarrow> string \<Rightarrow> char option \<Rightarrow> string \<Rightarrow> string" where
  "re_sub_from ic r repl prev [] = []"
| "re_sub_from ic r repl prev (c # cs) =
     (case rmatch ic r (prev, c # cs) of
        [] \<Rightarrow> c # re_sub_from ic r repl (Some c) cs
      | q # _ \<Rightarrow>
          if length (snd q) < length (c # cs) then repl @ re_sub_from ic r repl (fst q) (snd q)
          else c # re_sub_from ic r repl (Some c) cs)"
  by pat_completeness auto
termination
  by (relation "measure (\<lambda>(ic, r, repl, prev, s). length s)") auto

definition re_sub :: "bool \<Rightarrow> regex \<Rightarrow> string \<Rightarrow> string \<Rightarrow> string" where
  "re_sub ic r repl s = re_sub_from ic r repl None s"

section \<open>Name normalizer, exclusion filter, classifier\<close>

definition dot_opt :: regex where
  "dot_opt = Opt (Lit CHR ''.'')"

text \<open>The four entries of \<^verbatim>\<open>suffixes\<close> in \<^verbatim>\<open>normalize_company_name\<close>, in order.\<close>

definition suffix1 :: regex where
  "suffix1 = seqs [WordB,
     alts [lits ''llc'', Seq (lits ''l.l.c'') dot_opt, Seq (lits ''inc'') dot_opt,
           lits ''incorporated'', Seq (lits ''corp'') dot_opt, lits ''corporation'',
           Seq (lits ''co'') dot_opt, lits ''company''],
     WordB]"

definition suffix2 :: regex where
  "suffix2 = seqs [WordB,
     alts [Seq (lits ''ltd'') dot_opt, lits ''limited'', lits ''lp'', Seq (lits ''l.p'') dot_opt,
           lits ''llp'', Seq (lits ''l.l.p'') dot_opt],
     WordB]"

definition suffix3 :: regex where
  "suffix3 = seqs [WordB,
     alts [lits ''pllc'', Seq (lits ''p.l.l.c'') dot_opt, lits ''pc'', Seq (lits ''p.c'') dot_opt],
     WordB]"

definition suffix4 :: regex where
  "suffix4 = seqs [Opt (Lit CHR '',''), Star is_space,
     alts [seqs [Lit CHR ''d'', Opt (Lit CHR ''/''), Lit CHR ''b'', Opt (Lit CHR ''/''), Lit CHR ''a''],
           lits ''doing business as''],
     Cls is_space, Star is_space,
     Star (\<lambda>c. c \<noteq> CHR 0x0A), Eol]"

definition suffixes :: "regex list" where
  "suffixes = [suffix1, suffix2, suffix3, suffix4]"

definition punct :: regex where
  "punct = Cls (\<lambda>c. \<not> is_word c \<and> \<not> is_space c)"

definition spaces :: regex where
  "spaces = Seq (Cls is_space) (Star is_space)"

definition normalize_company_name :: "string \<Rightarrow> string" where
  "normalize_company_name name =
     (if name = [] then []
      else
        let name = strip (lower name);
            name = foldl (\<lambda>n suffix. re_sub True suffix [] n) name suffixes;
            name = re_sub False punct '' '' name
        in strip (re_sub False spaces '' '' name))"

definition EXCLUDE_PATTERNS :: "regex list" where
  "EXCLUDE_PATTERNS =
     [lits ''wireline competition bureau'',
      seqs [Bol, lits ''fcc'', WordB],
      lits ''federal communications commission'',
      lits ''national telecommunications and information'',
      lits ''department of justice'',
      lits ''national association of regulatory'']"

definition should_exclude :: "string \<Rightarrow> bool" where
  "should_exclude name = list_ex (\<lambda>pattern. re_search False pattern (lower name)) EXCLUDE_PATTERNS"

definition business_indicators :: "string list" where
  "business_indicators =
     [''llc'', ''inc'', ''corp'', ''company'', ''co.'', ''communications'',
      ''telecom'', ''voip'', ''network'', ''services'', ''solutions'']"

definition is_likely_individual :: "string \<Rightarrow> bool" where
  "is_likely_individual name =
     (let has_business_word = list_ex (\<lambda>ind. contains ind (lower name)) business_indicators
      in length (split name) \<le> 3 \<and> \<not> has_business_word)"

section \<open>Sequence similarity\<close>

text \<open>
  \<^verbatim>\<open>difflib.SequenceMatcher(None, a, b)\<close> of the Python standard library, with no junk
  predicate and the automatic junk heuristic switched on (the defaults): in a \<open>b\<close> of 200
  or more characters, a character that occurs more than \<open>len(b) // 100 + 1\<close> times is
  popular and left out of the index \<^verbatim>\<open>b2j\<close>.
\<close>

definition popular :: "string \<Rightarrow> char \<Rightarrow> bool" where
  "popular b elt \<longleftrightarrow> length b \<ge> 200 \<and> count_list b elt > length b div 100 + 1"

text \<open>
  One round of the outer loop of \<^verbatim>\<open>find_longest_match\<close>. The dictionary \<^verbatim>\<open>j2len\<close> is a
  list indexed by \<open>j\<close>, an absent key being 0 (the default of \<^verbatim>\<open>j2len.get(j-1, 0)\<close>; every
  stored value is positive).
\<close>

definition newj2len :: "string \<Rightarrow> nat \<Rightarrow> nat \<Rightarrow> char \<Rightarrow> nat list \<Rightarrow> nat list" where
  "newj2len b blo bhi x j2len =
     map (\<lambda>j. if b ! j = x \<and> \<not> popular b x \<and> blo \<le> j \<and> j < bhi
               then (if j = 0 then 0 else j2len ! (j - 1)) + 1 else 0)
         [0..<length b]"

fun update_best :: "nat \<Rightarrow> nat list \<Rightarrow> nat \<Rightarrow> nat \<times> nat \<times> nat \<Rightarrow> nat \<times> nat \<times> nat" where
  "update_best i [] j best = best"
| "update_best i (k # ks) j (besti, bestj, bestsize) =
     update_best i ks (j + 1)
       (if k > bestsize then (i + 1 - k, j + 1 - k, k) else (besti, bestj, bestsize))"

function longest_rows ::
  "string \<Rightarrow> string \<Rightarrow> nat \<Rightarrow> nat \<Rightarrow> nat \<Rightarrow> nat \<Rightarrow> nat list \<Rightarrow> nat \<times> nat \<times> nat \<Rightarrow> nat \<times> nat \<times> nat" where
  "longest_rows a b ahi blo bhi i j2len best =
     (if i < ahi then
        let row = newj2len b blo bhi (a ! i) j2len
        in longest_rows a b ahi blo bhi (i + 1) row (update_best i row 0 best)
      else best)"
  by pat_completeness auto
termination
  by (relation "measure (\<lambda>(a, b, ahi, blo, bhi, i, j2len, best). ahi - i)") auto

function extend_left :: "string \<Rightarrow> string \<Rightarrow> nat \<Rightarrow> nat \<Rightarrow> nat \<times> nat \<times> nat \<Rightarrow> nat \<times> nat \<times> nat" where
  "extend_left a b alo blo (besti, bestj, bestsize) =
     (if besti > alo \<and> bestj > blo \<and> a ! (besti - 1) = b ! (bestj - 1)
      then extend_left a b alo blo (besti - 1, bestj - 1, bestsize + 1)
      else (besti, bestj, bestsize))"
  by pat_completeness auto
termination
  by (relation "measure (\<lambda>(a, b, alo, blo, besti, bestj, bestsize). besti)") auto

function extend_right :: "string \<Rightarrow> string \<Rightarrow> nat \<Rightarrow> nat \<Rightarrow> nat \<times> nat \<times> nat \<Rightarrow> nat \<times> nat \<times> nat" where
  "extend_right a b ahi bhi (besti, bestj, bestsize) =
     (if besti + bestsize < ahi \<and> bestj + bestsize < bhi
         \<and> a ! (besti + bestsize) = b ! (bestj + bestsize)
      then extend_right a b ahi bhi (besti, bestj, bestsize + 1)
      else (besti, bestj, bestsize))"
  by pat_completeness auto
termination
  by (relation "measure (\<lambda>(a, b, ahi, bhi, besti, bestj, bestsize). ahi - (besti + bestsize))") auto

text \<open>
  The junk set is empty, so the two closing loops of \<^verbatim>\<open>find_longest_match\<close>, which
  extend the match over junk, never run.
\<close>

definition find_longest_match :: "string \<Rightarrow> string \<Rightarrow> nat \<Rightarrow> nat \<Rightarrow> nat \<Rightarrow> nat \<Rightarrow> nat \<times> nat \<times> nat" where
  "find_longest_match a b alo ahi blo bhi =
     extend_right a b ahi bhi
       (extend_left a b alo blo
          (longest_rows a b ahi blo bhi alo (replicate (length b) 0) (alo, blo, 0)))"

text \<open>
  The match that \<^verbatim>\<open>find_longest_match\<close> returns lies inside the window of \<open>a\<close> it was
  asked about; the recursion of \<^verbatim>\<open>get_matching_blocks\<close> terminates for that reason.
\<close>

lemma update_best_bounds:
  "update_best i row j best = (bi, bj, bs) \<Longrightarrow>
   (\<forall>k \<in> set row. k \<le> i + 1 - alo) \<Longrightarrow> alo \<le> i \<Longrightarrow> i < ahi \<Longrightarrow>
   alo \<le> fst best \<and> fst best + snd (snd best) \<le> ahi \<Longrightarrow>
   alo \<le> bi \<and> bi + bs \<le> ahi"
proof (induction i row j best rule: update_best.induct)
  case (1 i j best)
  then show ?case by auto
next
  case (2 i k ks j besti bestj bestsize)
  have kb: "k \<le> i + 1 - alo" using "2.prems"(2) by simp
  show ?case
  proof (cases "bestsize < k")
    case True
    show ?thesis
      apply (rule "2.IH")
      using "2.prems" True kb by auto
  next
    case False
    show ?thesis
      apply (rule "2.IH")
      using "2.prems" False by auto
  qed
qed

lemma newj2len_bound:
  "\<forall>k \<in> set j2len. k \<le> n \<Longrightarrow> length j2len = length b \<Longrightarrow>
   \<forall>k \<in> set (newj2len b blo bhi x j2len). k \<le> n + 1"
  by (auto simp: newj2len_def all_set_conv_all_nth)

lemma length_newj2len: "length (newj2len b blo bhi x j2len) = length b"
  by (simp add: newj2len_def)

lemma longest_rows_bounds:
  "longest_rows a b ahi blo bhi i j2len best = (bi, bj, bs) \<Longrightarrow>
   (\<forall>k \<in> set j2len. k \<le> i - alo) \<Longrightarrow> length j2len = length b \<Longrightarrow> alo \<le> i \<Longrightarrow>
   alo \<le> fst best \<and> fst best + snd (snd best) \<le> max ahi i \<Longrightarrow>
   alo \<le> bi \<and> bi + bs \<le> max ahi i"
proof (induction a b ahi blo bhi i j2len best arbitrary: bi bj bs rule: longest_rows.induct)
  case (1 a b ahi blo bhi i j2len best)
  show ?case
  proof (cases "i < ahi")
    case False
    then show ?thesis using "1.prems" by simp
  next
    case True
    define row where "row = newj2len b blo bhi (a ! i) j2len"
    obtain ci cj cs where ub: "update_best i row 0 best = (ci, cj, cs)"
      by (cases "update_best i row 0 best") auto
    have rowb: "\<forall>k \<in> set row. k \<le> i + 1 - alo"
      using newj2len_bound[OF "1.prems"(2,3), of blo bhi "a ! i"] "1.prems"(4)
      by (auto simp: row_def)
    have bb: "alo \<le> ci \<and> ci + cs \<le> ahi"
      using update_best_bounds[OF ub rowb "1.prems"(4) True] "1.prems"(5) True by (simp add: max_def)
    have eq: "longest_rows a b ahi blo bhi (i + 1) row (update_best i row 0 best) = (bi, bj, bs)"
      using "1.prems"(1) True by (simp add: row_def Let_def)
    have "alo \<le> bi \<and> bi + bs \<le> max ahi (i + 1)"
    proof (rule "1.IH"[OF True row_def eq])
      show "\<forall>k\<in>set row. k \<le> i + 1 - alo" by (rule rowb)
      show "length row = length b" by (simp add: row_def length_newj2len)
      show "alo \<le> i + 1" using "1.prems"(4) by simp
      show "alo \<le> fst (update_best i row 0 best) \<and>
        fst (update_best i row 0 best) + snd (snd (update_best i row 0 best)) \<le> max ahi (i + 1)"
        using bb ub by (auto simp: max_def)
    qed
    then show ?thesis using True by (auto simp: max_def split: if_splits)
  qed
qed

lemma extend_left_bounds:
  "extend_left a b alo blo best = (bi, bj, bs) \<Longrightarrow>
   alo \<le> fst best \<and> fst best + snd (snd best) \<le> m \<Longrightarrow> alo \<le> bi \<and> bi + bs \<le> m"
  by (induction a b alo blo best rule: extend_left.induct) (auto split: if_splits)

lemma extend_right_bounds:
  "extend_right a b ahi bhi best = (bi, bj, bs) \<Longrightarrow>
   alo \<le> fst best \<and> fst best + snd (snd best) \<le> max ahi alo \<Longrightarrow> alo \<le> bi \<and> bi + bs \<le> max ahi alo"
  by (induction a b ahi bhi best rule: extend_right.induct) (auto split: if_splits)

lemma find_longest_match_bounds:
  assumes "find_longest_match a b alo ahi blo bhi = (i, j, k)"
  shows "alo \<le> i \<and> i + k \<le> max ahi alo"
proof -
  obtain r where r: "longest_rows a b ahi blo bhi alo (replicate (length b) 0) (alo, blo, 0) = r" by simp
  obtain l where l: "extend_left a b alo blo r = l" by simp
  have 1: "alo \<le> fst r \<and> fst r + snd (snd r) \<le> max ahi alo"
    using longest_rows_bounds[of a b ahi blo bhi alo "replicate (length b) 0" "(alo, blo, 0)" "fst r" "fst (snd r)" "snd (snd r)" alo] r
    by simp
  have 2: "alo \<le> fst l \<and> fst l + snd (snd l) \<le> max ahi alo"
    using extend_left_bounds[of a b alo blo r "fst l" "fst (snd l)" "snd (snd l)" "max ahi alo"] l 1 by simp
  show ?thesis
    using extend_right_bounds[of a b ahi bhi l i j k alo] 2 assms r l
    by (simp add: find_longest_match_def)
qed

text \<open>
  \<^verbatim>\<open>get_matching_blocks\<close> works off a queue of windows; the blocks are listed here in the
  order of the recursion (the block, those to its left, those to its right). Only their
  sizes are used.
\<close>

function matching_blocks :: "string \<Rightarrow> string \<Rightarrow> nat \<Rightarrow> nat \<Rightarrow> nat \<Rightarrow> nat \<Rightarrow> (nat \<times> nat \<times> nat) list" where
  "matching_blocks a b alo ahi blo bhi =
     (case find_longest_match a b alo ahi blo bhi of
        (i, j, k) \<Rightarrow>
          if k \<noteq> 0 then
            (i, j, k)
              # (if alo < i \<and> blo < j then matching_blocks a b alo i blo j else [])
              @ (if i + k < ahi \<and> j + k < bhi then matching_blocks a b (i + k) ahi (j + k) bhi else [])
          else [])"
  by pat_completeness auto
termination
  apply (relation "measure (\<lambda>(a, b, alo, ahi, blo, bhi). ahi - alo)")
    apply simp
   apply (auto dest!: find_longest_match_bounds[OF sym] simp: max_def split: if_splits)
  done

text \<open>
  \<^verbatim>\<open>ratio()\<close> is \<^verbatim>\<open>2.0 * matches / length\<close>, or 1.0 for two empty strings. The quotient is
  kept as an exact rational number: Python rounds it to the nearest double, which is
  monotone, and the quotient of two integers below \<open>2^50\<close> is never closer to
  \<open>19/20\<close> than one double is to the next without being equal to it, so the
  test \<^verbatim>\<open>ratio > 0.95\<close> has the same outcome on both.
\<close>

definition ratio :: "string \<Rightarrow> string \<Rightarrow> rat" where
  "ratio a b =
     (let matches = sum_list (map (\<lambda>(i, j, k). k) (matching_blocks a b 0 (length a) 0 (length b)));
          len = length a + length b
      in if len \<noteq> 0 then 2 * of_nat matches / of_nat len else 1)"

section \<open>Similarity merger\<close>

text \<open>
  The token comparison of the deduplication pass. \<^verbatim>\<open>diff_count\<close> is a sum of the
  doubles 0.1 and 1; it is kept as an exact rational. The only sums below 0.2 are 0 and
  0.1 in both readings (in doubles \<^verbatim>\<open>0.1 + 0.1 == 0.2\<close>, and adding a positive number to
  a double that is at least 0.2 gives at least 0.2).
\<close>

definition diff_count :: "string list \<Rightarrow> string list \<Rightarrow> rat" where
  "diff_count w1 w2 =
     foldl (\<lambda>diff_count (wa, wb).
              if wa \<noteq> wb then
                (if wa @ ''s'' = wb \<or> wb @ ''s'' = wa then diff_count + 1 / 10
                 else diff_count + 1)
              else diff_count)
           0 (zip w1 w2)"

definition is_duplicate :: "string \<Rightarrow> string \<Rightarrow> bool" where
  "is_duplicate k1 k2 =
     (if ratio k1 k2 > 95 / 100 then True
      else
        let w1 = split k1; w2 = split k2
        in if length w1 = length w2 then diff_count w1 w2 < 2 / 10 else False)"

text \<open>
  A raw filing is a dictionary from field names to strings: the fetch stage writes every
  value as a string. A field may be absent. \<^verbatim>\<open>grouped\<close> is a dictionary in insertion
  order: an association list with distinct keys.
\<close>

type_synonym raw_filing = "string \<rightharpoonup> string"

type_synonym grouped = "(string \<times> raw_filing list) list"

definition get_or :: "raw_filing \<Rightarrow> string \<Rightarrow> string \<Rightarrow> string" where
  "get_or f k d = (case f k of Some v \<Rightarrow> v | None \<Rightarrow> d)"

text \<open>\<^verbatim>\<open>grouped[k]\<close> (a \<^verbatim>\<open>defaultdict(list)\<close>) and \<^verbatim>\<open>grouped[k].append(f)\<close>.\<close>

definition lookup :: "grouped \<Rightarrow> string \<Rightarrow> raw_filing list" where
  "lookup g k = (case map_of g k of Some fs \<Rightarrow> fs | None \<Rightarrow> [])"

fun append_to :: "string \<Rightarrow> raw_filing \<Rightarrow> grouped \<Rightarrow> grouped" where
  "append_to k f [] = [(k, [f])]"
| "append_to k f ((k', fs) # g) =
     (if k' = k then (k', fs @ [f]) # g else (k', fs) # append_to k f g)"

text \<open>\<^verbatim>\<open>grouped[k1].extend(grouped[k2]); del grouped[k2]\<close>, for two keys of \<open>g\<close>.\<close>

definition merge_into :: "string \<Rightarrow> string \<Rightarrow> grouped \<Rightarrow> grouped" where
  "merge_into k1 k2 g =
     filter (\<lambda>(k, fs). k \<noteq> k2)
       (map (\<lambda>(k, fs). if k = k1 then (k, fs @ lookup g k2) else (k, fs)) g)"

text \<open>The two nested loops over the sorted keys; the state is \<^verbatim>\<open>grouped\<close> and \<^verbatim>\<open>skip_keys\<close>.\<close>

fun dedup_inner :: "string \<Rightarrow> string list \<Rightarrow> grouped \<times> string set \<Rightarrow> grouped \<times> string set" where
  "dedup_inner k1 [] st = st"
| "dedup_inner k1 (k2 # ks) (g, skip_keys) =
     (if k2 \<in> skip_keys then dedup_inner k1 ks (g, skip_keys)
      else if is_duplicate k1 k2 then dedup_inner k1 ks (merge_into k1 k2 g, insert k2 skip_keys)
      else dedup_inner k1 ks (g, skip_keys))"

fun dedup_outer :: "string list \<Rightarrow> grouped \<times> string set \<Rightarrow> grouped \<times> string set" where
  "dedup_outer [] st = st"
| "dedup_outer (k1 # ks) (g, skip_keys) =
     (if k1 \<in> skip_keys then dedup_outer ks (g, skip_keys)
      else dedup_outer ks (dedup_inner k1 ks (g, skip_keys)))"

definition deduplicate :: "grouped \<Rightarrow> grouped" where
  "deduplicate g = fst (dedup_outer (sort (map fst g)) (g, {}))"

section \<open>Company identifier\<close>

text \<open>
  \<^verbatim>\<open>uuid.uuid5(namespace, name)\<close> of the Python standard library: the first 16 bytes of
  the SHA-1 digest of the namespace's bytes followed by the name in UTF-8 (for ASCII text,
  the character codes), with the version (5) and variant bits set, printed as hexadecimal
  digits in groups of 8, 4, 4, 4 and 12.
\<close>

type_synonym byte = "8 word"

definition pad_message :: "byte list \<Rightarrow> byte list" where
  "pad_message m =
     (let l = length m;
          zeros = (119 - l mod 64) mod 64;
          bits = (of_nat (8 * l) :: 64 word)
      in m @ [0x80] @ replicate zeros 0
           @ map (\<lambda>i. ucast (drop_bit (8 * (7 - i)) bits)) [0..<8])"

fun be32 :: "byte list \<Rightarrow> 32 word" where
  "be32 bs = foldl (\<lambda>w b. push_bit 8 w OR ucast b) 0 (take 4 bs)"

fun chunks :: "nat \<Rightarrow> nat \<Rightarrow> 'a list \<Rightarrow> 'a list list" where
  "chunks 0 n xs = []"
| "chunks (Suc k) n xs = take n xs # chunks k n (drop n xs)"

fun extend_schedule :: "nat \<Rightarrow> 32 word list \<Rightarrow> 32 word list" where
  "extend_schedule 0 w = w"
| "extend_schedule (Suc n) w =
     (let t = length w
      in extend_schedule n
           (w @ [word_rotl 1 (w ! (t - 3) XOR w ! (t - 8) XOR w ! (t - 14) XOR w ! (t - 16))]))"

type_synonym sha_state = "32 word \<times> 32 word \<times> 32 word \<times> 32 word \<times> 32 word"

definition sha1_round :: "nat \<Rightarrow> 32 word \<Rightarrow> sha_state \<Rightarrow> sha_state" where
  "sha1_round t wt st =
     (case st of (a, b, c, d, e) \<Rightarrow>
        let (f, k) =
              (if t < 20 then ((b AND c) OR (NOT b AND d), 0x5A827999)
               else if t < 40 then (b XOR c XOR d, 0x6ED9EBA1)
               else if t < 60 then ((b AND c) OR (b AND d) OR (c AND d), 0x8F1BBCDC)
               else (b XOR c XOR d, 0xCA62C1D6));
            temp = word_rotl 5 a + f + e + k + wt
        in (temp, a, word_rotl 30 b, c, d))"

fun sha1_rounds :: "nat \<Rightarrow> 32 word list \<Rightarrow> sha_state \<Rightarrow> sha_state" where
  "sha1_rounds t [] st = st"
| "sha1_rounds t (wt # ws) st = sha1_rounds (t + 1) ws (sha1_round t wt st)"

definition sha1_block :: "sha_state \<Rightarrow> byte list \<Rightarrow> sha_state" where
  "sha1_block h block =
     (let w = extend_schedule 64 (map be32 (chunks 16 4 block))
      in case (h, sha1_rounds 0 w h) of
           ((h0, h1, h2, h3, h4), (a, b, c, d, e)) \<Rightarrow> (h0 + a, h1 + b, h2 + c, h3 + d, h4 + e))"

definition word_bytes :: "32 word \<Rightarrow> byte list" where
  "word_bytes w = map (\<lambda>i. ucast (drop_bit (8 * (3 - i)) w)) [0..<4]"

definition sha1 :: "byte list \<Rightarrow> byte list" where
  "sha1 m =
     (let p = pad_message m
      in case foldl sha1_block (0x67452301, 0xEFCDAB89, 0x98BADCFE, 0x10325476, 0xC3D2E1F0)
                (chunks (length p div 64) 64 p) of
           (h0, h1, h2, h3, h4) \<Rightarrow> concat (map word_bytes [h0, h1, h2, h3, h4]))"

definition hex_byte :: "byte \<Rightarrow> string" where
  "hex_byte b = [''0123456789abcdef'' ! unat (drop_bit 4 b), ''0123456789abcdef'' ! unat (b AND 0x0F)]"

definition NAMESPACE :: "byte list" where
  "NAMESPACE = [0x6b, 0xa7, 0xb8, 0x10, 0x9d, 0xad, 0x11, 0xd1, 0x80, 0xb4, 0x00, 0xc0, 0x4f, 0xd4, 0x30, 0xc8]"

definition uuid5 :: "byte list \<Rightarrow> string \<Rightarrow> string" where
  "uuid5 namespace name =
     (let hash = take 16 (sha1 (namespace @ map of_char name));
          hash = hash[6 := (hash ! 6 AND 0x0F) OR 0x50];
          hash = hash[8 := (hash ! 8 AND 0x3F) OR 0x80];
          hex = map hex_byte hash
      in concat (take 4 hex) @ ''-'' @ concat (take 2 (drop 4 hex)) @ ''-''
           @ concat (take 2 (drop 6 hex)) @ ''-'' @ concat (take 2 (drop 8 hex)) @ ''-''
           @ concat (drop 10 hex))"

definition generate_company_id :: "string \<Rightarrow> string" where
  "generate_company_id normalized_name = uuid5 NAMESPACE normalized_name"

section \<open>Records and schema validation\<close>

text \<open>
  The child and parent records. Before validation (\<open>string option filing\<close>) a field
  copied from the raw filing with \<^verbatim>\<open>f.get(key)\<close> is \<^verbatim>\<open>None\<close> when the raw filing lacks
  it; the classes \<^verbatim>\<open>Filing\<close> and \<^verbatim>\<open>Company\<close> of the schema take strings only
  (\<open>string filing\<close>). The field \<open>company_id\<close> is the key \<^verbatim>\<open>"id"\<close>.
\<close>

record 'v filing =
  filing_id :: 'v
  date_received :: 'v
  docket_number :: 'v
  submission_type :: 'v
  filing_status :: 'v
  document_urls :: "string list"
  detail_url :: 'v

record 'v company =
  company_id :: string
  entity_name :: string
  normalized_name :: string
  entity_type :: string
  is_applicant :: bool
  filing_count :: int
  filings :: "'v filing list"
  enrichment :: "(string \<times> string) list"

text \<open>
  The locations of a \<^verbatim>\<open>ValidationError\<close>: a string field of the filing at an index of
  \<^verbatim>\<open>filings\<close> that is \<^verbatim>\<open>None\<close>, or a negative \<^verbatim>\<open>filing_count\<close>. The list of locations
  stands for the text \<^verbatim>\<open>str(e)\<close>.
\<close>

datatype loc = Filing_field nat string | Filing_count

type_synonym validation_error = "loc list"

definition missing_fields :: "string option filing \<Rightarrow> string list" where
  "missing_fields x =
     map fst (filter (\<lambda>(k, v). v = None)
       [(''filing_id'', filing_id x), (''date_received'', date_received x),
        (''docket_number'', docket_number x), (''submission_type'', submission_type x),
        (''filing_status'', filing_status x), (''detail_url'', detail_url x)])"

definition Filing :: "string option filing \<Rightarrow> string list + string filing" where
  "Filing x =
     (case (filing_id x, date_received x, docket_number x, submission_type x,
            filing_status x, detail_url x) of
        (Some i, Some d, Some n, Some t, Some s, Some u) \<Rightarrow>
          Inr \<lparr>filing_id = i, date_received = d, docket_number = n, submission_type = t,
               filing_status = s, document_urls = document_urls x, detail_url = u\<rparr>
      | _ \<Rightarrow> Inl (missing_fields x))"

definition Company :: "string option company \<Rightarrow> validation_error + string company" where
  "Company r =
     (let results = map Filing (filings r);
          errors =
            (if filing_count r < 0 then [Filing_count] else [])
            @ concat (map (\<lambda>(i, res). case res of Inl missing \<Rightarrow> map (Filing_field i) missing
                                                  | Inr _ \<Rightarrow> [])
                          (enumerate 0 results))
      in if errors = [] then
           Inr \<lparr>company_id = company_id r, entity_name = entity_name r,
                normalized_name = normalized_name r, entity_type = entity_type r,
                is_applicant = is_applicant r, filing_count = filing_count r,
                filings = concat (map (\<lambda>res. case res of Inr v \<Rightarrow> [v] | Inl _ \<Rightarrow> []) results),
                enrichment = enrichment r\<rparr>
         else Inl errors)"

section \<open>The core transformation\<close>

definition is_application_type :: "raw_filing \<Rightarrow> bool" where
  "is_application_type filing =
     (let sub_type = upper (get_or filing ''submission_type'' '''')
      in list_ex (\<lambda>t. contains t sub_type) [''APPLICATION'', ''REQUEST'', ''PETITION''])"

text \<open>The test of the first loop of \<^verbatim>\<open>structure_data\<close> ("Filter for IPES filings only").\<close>

definition is_ipes :: "raw_filing \<Rightarrow> bool" where
  "is_ipes f =
     (let proc_desc = lower (get_or f ''proceeding_description'' '''');
          docket = lower (get_or f ''docket_number'' '''')
      in contains ''voip'' proc_desc \<or> contains ''52.15'' proc_desc
         \<or> contains ''inbox-52.15'' docket)"

fun group_filings :: "raw_filing list \<Rightarrow> grouped \<Rightarrow> grouped" where
  "group_filings [] grouped = grouped"
| "group_filings (f # fs) grouped =
     (if is_ipes f then
        let name = strip (get_or f ''company_name'' '''')
        in if name = [] \<or> should_exclude name then group_filings fs grouped
           else
             let normalized = normalize_company_name name
             in if normalized \<noteq> [] then group_filings fs (append_to normalized f grouped)
                else group_filings fs grouped
      else group_filings fs grouped)"

definition filing_record :: "raw_filing \<Rightarrow> string option filing" where
  "filing_record f =
     (let urls = (case f ''document_urls'' of
                    None \<Rightarrow> []
                  | Some u \<Rightarrow> if u \<noteq> [] then split_semi u else [])
      in \<lparr>filing_id = f ''submission_id'',
          date_received = f ''date_received'',
          docket_number = f ''docket_number'',
          submission_type = f ''submission_type'',
          filing_status = f ''filing_status'',
          document_urls = (if urls = [] \<or> urls = [''''] then [] else urls),
          detail_url = f ''detail_url''\<rparr>)"

text \<open>
  \<^verbatim>\<open>processed_filings.sort(key=lambda x: x.get("date_received", ""), reverse=True)\<close>.
  Every filing record has the key \<^verbatim>\<open>"date_received"\<close>, so the default is never used and the
  sort key of a filing without a date is \<^verbatim>\<open>None\<close>. A list of fewer than two elements is
  not compared at all; in a longer one every element is compared with another one, and a
  comparison with \<^verbatim>\<open>None\<close> on either side raises \<^verbatim>\<open>TypeError\<close>. The sort is stable and, with
  \<^verbatim>\<open>reverse=True\<close>, keeps elements with equal keys in their original order: the list is
  reversed, sorted and reversed again.
\<close>

datatype error = TypeError

definition sort_desc :: "('a \<Rightarrow> string) \<Rightarrow> 'a list \<Rightarrow> 'a list" where
  "sort_desc key xs = rev (sort_key key (rev xs))"

definition sort_filings :: "string option filing list \<Rightarrow> error + string option filing list" where
  "sort_filings xs =
     (if length xs \<ge> 2 \<and> list_ex (\<lambda>x. date_received x = None) xs then Inl TypeError
      else Inr (sort_desc (\<lambda>x. case date_received x of Some d \<Rightarrow> d | None \<Rightarrow> []) xs))"

text \<open>\<^verbatim>\<open>max(all_names, key=len)\<close>: the first of the longest names.\<close>

definition max_len :: "string \<Rightarrow> string list \<Rightarrow> string" where
  "max_len n ns = foldl (\<lambda>best m. if length m > length best then m else best) n ns"

record error_sample =
  sample_name :: string
  sample_error :: validation_error

text \<open>
  The body of the loop over \<^verbatim>\<open>grouped.items()\<close>; the state is \<^verbatim>\<open>structured_companies\<close>,
  \<^verbatim>\<open>validation_errors\<close> and \<^verbatim>\<open>error_log\<close>.
\<close>

type_synonym acc = "string company list \<times> int \<times> error_sample list"

definition assemble :: "string \<times> raw_filing list \<Rightarrow> acc \<Rightarrow> error + acc" where
  "assemble cluster st =
     (case (cluster, st) of
        ((normalized_name', company_filings), (structured_companies, validation_errors, error_log)) \<Rightarrow>
          let all_names = map (\<lambda>f. get_or f ''company_name'' '''') company_filings;
              primary_name = (case all_names of [] \<Rightarrow> normalized_name' | n # ns \<Rightarrow> max_len n ns);
              is_individual = is_likely_individual primary_name;
              has_application = list_ex is_application_type company_filings
          in case sort_filings (map filing_record company_filings) of
               Inl e \<Rightarrow> Inl e
             | Inr processed_filings \<Rightarrow>
                 let company_record =
                       \<lparr>company_id = generate_company_id normalized_name',
                        entity_name = primary_name,
                        normalized_name = normalized_name',
                        entity_type = (if is_individual then ''Individual'' else ''Company''),
                        is_applicant = has_application,
                        filing_count = int (length processed_filings),
                        filings = processed_filings,
                        enrichment = []\<rparr>
                 in if has_application \<and> \<not> is_individual then
                      (case Company company_record of
                         Inr validated_company \<Rightarrow>
                           Inr (structured_companies @ [validated_company], validation_errors, error_log)
                       | Inl e \<Rightarrow>
                           Inr (structured_companies, validation_errors + 1,
                                error_log @ [\<lparr>sample_name = normalized_name', sample_error = e\<rparr>]))
                    else Inr (structured_companies, validation_errors, error_log))"

fun assemble_all :: "grouped \<Rightarrow> acc \<Rightarrow> error + acc" where
  "assemble_all [] st = Inr st"
| "assemble_all (cluster # rest) st =
     (case assemble cluster st of Inl e \<Rightarrow> Inl e | Inr st' \<Rightarrow> assemble_all rest st')"

text \<open>
  The validation report and its history file. The file is absent, or cannot be parsed as
  JSON, or holds a list of entries, or holds one value that is not a list; \<open>Foreign\<close> is an
  entry that an earlier writer left, kept as it is.
\<close>

record validation_stats =
  timestamp :: string
  total_processed :: int
  valid_records :: int
  invalid_records :: int
  error_samples :: "error_sample list"

datatype entry = Stats validation_stats | Foreign string

datatype val_file = Missing | Malformed | Content_list "entry list" | Content_value entry

text \<open>What a run reads from outside: the clock and the history file.\<close>

record env =
  now :: string
  history :: val_file

definition load_history :: "val_file \<Rightarrow> entry list" where
  "load_history file =
     (case file of
        Missing \<Rightarrow> []
      | Malformed \<Rightarrow> []
      | Content_list content \<Rightarrow> content
      | Content_value content \<Rightarrow> [content])"

text \<open>
  \<^verbatim>\<open>structure_data\<close> returns the company records and writes the history file; the model
  returns both. The records were dumped without a key \<^verbatim>\<open>"latest_filing_date"\<close>, so the
  key of the final sort is the empty string for each of them.
\<close>

definition structure_data :: "env \<Rightarrow> raw_filing list \<Rightarrow> error + (string company list \<times> entry list)" where
  "structure_data e filings' =
     (let grouped = deduplicate (group_filings filings' [])
      in case assemble_all grouped ([], 0, []) of
           Inl err \<Rightarrow> Inl err
         | Inr (structured_companies, validation_errors, error_log) \<Rightarrow>
             let structured_companies = sort_desc (\<lambda>x. []) structured_companies;
                 stats =
                   \<lparr>timestamp = now e,
                    total_processed = int (length structured_companies) + validation_errors,
                    valid_records = int (length structured_companies),
                    invalid_records = validation_errors,
                    error_samples = take 5 error_log\<rparr>;
                 val_history = load_history (history e)
             in Inr (structured_companies, val_history @ [Stats stats]))"

section \<open>Derived notions and example data\<close>

text \<open>The value of \<^verbatim>\<open>primary_name\<close> in the assembling loop, for a cluster.\<close>

definition primary_name :: "string \<Rightarrow> raw_filing list \<Rightarrow> string" where
  "primary_name k cf =
     (case map (\<lambda>f. get_or f ''company_name'' '''') cf of [] \<Rightarrow> k | n # ns \<Rightarrow> max_len n ns)"

text \<open>
  The two raw filings of the end-to-end scenario of the specification, as written there,
  and a filing with the other fields that the fetch stage writes.
\<close>

definition acme1 :: raw_filing where
  "acme1 = [''company_name'' \<mapsto> ''Acme Communications LLC'',
            ''submission_type'' \<mapsto> ''APPLICATION FOR AUTHORIZATION'',
            ''date_received'' \<mapsto> ''2023-05-01'',
            ''document_urls'' \<mapsto> ''http://x/doc1'']"

definition acme2 :: raw_filing where
  "acme2 = [''company_name'' \<mapsto> ''Acme Communications'',
            ''submission_type'' \<mapsto> ''APPLICATION'',
            ''date_received'' \<mapsto> ''2023-06-01'',
            ''document_urls'' \<mapsto> '''']"

definition fetched :: "raw_filing \<Rightarrow> string \<Rightarrow> raw_filing" where
  "fetched f n =
     f(''submission_id'' \<mapsto> n,
       ''docket_number'' \<mapsto> ''20-67'',
       ''proceeding_description'' \<mapsto> ''Numbering Policies for Interconnected VoIP Providers'',
       ''filing_status'' \<mapsto> ''DISSEMINATED'',
       ''detail_url'' \<mapsto> ''https://www.fcc.gov/ecfs/filing/'' @ n)"

definition env0 :: env where
  "env0 = \<lparr>now = ''2024-01-01T00:00:00'', history = Missing\<rparr>"

definition env1 :: env where
  "env1 = \<lparr>now = ''2025-07-04T12:30:00'', history = Malformed\<rparr>"


text \<open>The record expected for the two fetched filings, with the dates of the first and second.\<close>

definition acme_dated :: "string \<Rightarrow> string \<Rightarrow> string company" where
  "acme_dated d1 d2 =
     \<lparr>company_id = generate_company_id ''acme communications'',
      entity_name = ''Acme Communications LLC'',
      normalized_name = ''acme communications'',
      entity_type = ''Company'',
      is_applicant = True,
      filing_count = 2,
      filings =
        [\<lparr>filing_id = ''2'', date_received = d2, docket_number = ''20-67'',
          submission_type = ''APPLICATION'', filing_status = ''DISSEMINATED'',
          document_urls = [], detail_url = ''https://www.fcc.gov/ecfs/filing/2''\<rparr>,
         \<lparr>filing_id = ''1'', date_received = d1, docket_number = ''20-67'',
          submission_type = ''APPLICATION FOR AUTHORIZATION'', filing_status = ''DISSEMINATED'',
          document_urls = [''http://x/doc1''], detail_url = ''https://www.fcc.gov/ecfs/filing/1''\<rparr>],
      enrichment = []\<rparr>"

definition acme_company :: "string company" where
  "acme_company = acme_dated ''2023-05-01'' ''2023-06-01''"

definition stats_at :: "string \<Rightarrow> int \<Rightarrow> int \<Rightarrow> error_sample list \<Rightarrow> validation_stats" where
  "stats_at t valid invalid samples =
     \<lparr>timestamp = t, total_processed = valid + invalid, valid_records = valid,
      invalid_records = invalid, error_samples = samples\<rparr>"

text \<open>All the filings of a grouping.\<close>

definition all_filings :: "grouped \<Rightarrow> raw_filing set" where
  "all_filings g = (\<Union>(k, cf) \<in> set g. set cf)"


text \<open>What the loop has appended: every record comes from a cluster through the gate.\<close>

definition emitted_from :: "string \<times> raw_filing list \<Rightarrow> string company \<Rightarrow> bool" where
  "emitted_from cl v \<longleftrightarrow>
     (\<exists>pf. sort_filings (map filing_record (snd cl)) = Inr pf
        \<and> list_ex is_application_type (snd cl)
        \<and> \<not> is_likely_individual (primary_name (fst cl) (snd cl))
        \<and> Company \<lparr>company_id = generate_company_id (fst cl),
                     entity_name = primary_name (fst cl) (snd cl),
                     normalized_name = fst cl, entity_type = ''Company'', is_applicant = True,
                     filing_count = int (length pf), filings = pf, enrichment = []\<rparr> = Inr v)"


text \<open>Notions for the analysis of the normalizer.\<close>

text \<open>An expression every match of which consumes a character.\<close>

fun nonempty :: "regex \<Rightarrow> bool" where
  "nonempty (Lit a) = True"
| "nonempty (Cls p) = True"
| "nonempty (Seq r1 r2) = (nonempty r1 \<or> nonempty r2)"
| "nonempty (Alt r1 r2) = (nonempty r1 \<and> nonempty r2)"
| "nonempty r = False"

text \<open>What \<^verbatim>\<open>re.sub(r'\s+', ' ', name)\<close> computes, as a recursion on the string.\<close>

function collapse :: "string \<Rightarrow> string" where
  "collapse [] = []"
| "collapse (c # cs) =
     (if is_space c then CHR '' '' # collapse (dropWhile is_space cs) else c # collapse cs)"
  by pat_completeness auto
termination
  by (relation "measure length") (auto intro: le_imp_less_Suc length_dropWhile_le)

fun no_double_space :: "string \<Rightarrow> bool" where
  "no_double_space [] = True"
| "no_double_space [c] = True"
| "no_double_space (c # d # cs) = (\<not> (is_space c \<and> is_space d) \<and> no_double_space (d # cs))"

definition key_form :: "string \<Rightarrow> bool" where
  "key_form k \<longleftrightarrow>
     (\<forall>c \<in> set k. lower_char c = c \<and> (is_word c \<or> c = CHR '' ''))
     \<and> no_double_space k
     \<and> (k \<noteq> [] \<longrightarrow> \<not> is_space (hd k) \<and> \<not> is_space (last k))"




section \<open>Auxiliary facts\<close>

lemma Filing_Inl_nonempty: "Filing x = Inl ms \<Longrightarrow> ms \<noteq> []"
  by (auto simp: Filing_def missing_fields_def split: option.splits)

lemma Filing_InrD:
  "Filing x = Inr y \<Longrightarrow>
     date_received x = Some (date_received y) \<and> filing_id x = Some (filing_id y)
     \<and> document_urls y = document_urls x"
  by (auto simp: Filing_def split: option.splits)

lemma concat_enumerate_Nil:
  "concat (map (\<lambda>(i, res). g i res) (enumerate n xs)) = [] \<Longrightarrow> x \<in> set xs \<Longrightarrow> \<exists>i. g i x = []"
  by (induction xs arbitrary: n) auto

lemma Company_Inr_filings:
  assumes "Company r = Inr v"
  shows "\<forall>x \<in> set (filings r). \<exists>y. Filing x = Inr y"
proof
  fix x assume x: "x \<in> set (filings r)"
  let ?g = "\<lambda>i res. case res of Inl missing \<Rightarrow> map (Filing_field i) missing | Inr _ \<Rightarrow> []"
  have "concat (map (\<lambda>(i, res). ?g i res) (enumerate 0 (map Filing (filings r)))) = []"
    using assms by (simp add: Company_def Let_def split: if_splits)
  from concat_enumerate_Nil[OF this, of "Filing x"] x
  obtain i where "?g i (Filing x) = []" by auto
  then show "\<exists>y. Filing x = Inr y"
    by (cases "Filing x") (auto dest: Filing_Inl_nonempty)
qed

lemma concat_Inr_map:
  "\<forall>x \<in> set xs. \<exists>y. F x = Inr y \<Longrightarrow>
   concat (map (\<lambda>res. case res of Inr v \<Rightarrow> [v] | Inl _ \<Rightarrow> []) (map F xs)) = map (\<lambda>x. projr (F x)) xs"
  by (induction xs) auto

lemma Company_InrD:
  assumes "Company r = Inr v"
  shows "company_id v = company_id r" "entity_name v = entity_name r"
    "normalized_name v = normalized_name r" "entity_type v = entity_type r"
    "is_applicant v = is_applicant r" "filing_count v = filing_count r"
    "filings v = map (\<lambda>x. projr (Filing x)) (filings r)"
proof -
  have v: "v = \<lparr>company_id = company_id r, entity_name = entity_name r,
                normalized_name = normalized_name r, entity_type = entity_type r,
                is_applicant = is_applicant r, filing_count = filing_count r,
                filings = concat (map (\<lambda>res. case res of Inr v \<Rightarrow> [v] | Inl _ \<Rightarrow> []) (map Filing (filings r))),
                enrichment = enrichment r\<rparr>"
    using assms by (simp add: Company_def Let_def split: if_splits)
  show "company_id v = company_id r" "entity_name v = entity_name r"
    "normalized_name v = normalized_name r" "entity_type v = entity_type r"
    "is_applicant v = is_applicant r" "filing_count v = filing_count r"
    by (simp_all add: v)
  show "filings v = map (\<lambda>x. projr (Filing x)) (filings r)"
    using concat_Inr_map[OF Company_Inr_filings[OF assms]] by (simp add: v)
qed

lemma Company_Inl_nonempty: "Company r = Inl e \<Longrightarrow> e \<noteq> []"
  by (auto simp: Company_def Let_def split: if_splits)

lemma assemble_cases:
  assumes "assemble (k, cf) (cs, n, elog) = Inr st'"
  obtains (skipped) "st' = (cs, n, elog)"
      "\<not> (list_ex is_application_type cf \<and> \<not> is_likely_individual (primary_name k cf))"
  | (emitted) pf v where "st' = (cs @ [v], n, elog)"
      "sort_filings (map filing_record cf) = Inr pf"
      "list_ex is_application_type cf" "\<not> is_likely_individual (primary_name k cf)"
      "Company \<lparr>company_id = generate_company_id k, entity_name = primary_name k cf,
                normalized_name = k, entity_type = ''Company'', is_applicant = True,
                filing_count = int (length pf), filings = pf, enrichment = []\<rparr> = Inr v"
  | (invalid) e where "st' = (cs, n + 1, elog @ [\<lparr>sample_name = k, sample_error = e\<rparr>])" "e \<noteq> []"
      "list_ex is_application_type cf" "\<not> is_likely_individual (primary_name k cf)"
  using assms
  by (auto simp: assemble_def Let_def primary_name_def split: sum.splits if_splits dest: Company_Inl_nonempty)

lemma assemble_all_inv:
  assumes "assemble_all g st = Inr st'" "P st"
    and "\<And>cl s s'. cl \<in> set g \<Longrightarrow> P s \<Longrightarrow> assemble cl s = Inr s' \<Longrightarrow> P s'"
  shows "P st'"
  using assms
proof (induction g arbitrary: st)
  case Nil
  then show ?case by simp
next
  case (Cons cl g)
  from Cons.prems(1) obtain s1 where s1: "assemble cl st = Inr s1" "assemble_all g s1 = Inr st'"
    by (auto split: sum.splits)
  have "P s1" using Cons.prems(3)[OF _ Cons.prems(2) s1(1)] by simp
  show ?case
  proof (rule Cons.IH[OF s1(2) \<open>P s1\<close>])
    fix cl' s s' assume "cl' \<in> set g" "P s" "assemble cl' s = Inr s'"
    then show "P s'" using Cons.prems(3)[of cl' s s'] by simp
  qed
qed

lemma sort_key_const: "sort_key (\<lambda>x. c) xs = xs"
proof (induction xs)
  case Nil
  then show ?case by simp
next
  case (Cons x xs)
  then show ?case by (cases xs) simp_all
qed

lemma sort_desc_const: "sort_desc (\<lambda>x. c) xs = xs"
  by (simp add: sort_desc_def sort_key_const)

lemma set_sort_desc: "set (sort_desc key xs) = set xs"
  by (simp add: sort_desc_def)

lemma length_sort_desc: "length (sort_desc key xs) = length xs"
  by (simp add: sort_desc_def)

lemma sort_desc_descending: "sorted (rev (map key (sort_desc key xs)))"
  by (simp add: sort_desc_def rev_map)

lemma sort_filings_InrD:
  "sort_filings xs = Inr ys \<Longrightarrow> length ys = length xs \<and> set ys = set xs"
  by (auto simp: sort_filings_def set_sort_desc length_sort_desc split: if_splits)

lemma structure_dataD:
  assumes "structure_data e fs = Inr (cs, h)"
  obtains n elog where
    "assemble_all (deduplicate (group_filings fs [])) ([], 0, []) = Inr (cs, n, elog)"
    "h = load_history (history e) @
         [Stats \<lparr>timestamp = now e, total_processed = int (length cs) + n,
                 valid_records = int (length cs), invalid_records = n,
                 error_samples = take 5 elog\<rparr>]"
  using assms
  by (auto simp: structure_data_def Let_def sort_desc_const split: sum.splits prod.splits)

text \<open>Grouping and merging: keys stay distinct, filings come from the batch.\<close>

lemma all_filings_Cons: "all_filings ((k, cf) # g) = set cf \<union> all_filings g"
  by (simp add: all_filings_def)

lemma all_filings_Nil: "all_filings [] = {}"
  by (simp add: all_filings_def)

lemma all_filings_append_to: "all_filings (append_to k f g) = insert f (all_filings g)"
proof (induction g)
  case Nil
  then show ?case by (simp add: all_filings_Cons all_filings_Nil)
next
  case (Cons p g)
  obtain k' cf where p: "p = (k', cf)" by (cases p)
  show ?case using Cons.IH by (auto simp: p all_filings_Cons)
qed

lemma keys_append_to:
  "map fst (append_to k f g) = (if k \<in> fst ` set g then map fst g else map fst g @ [k])"
proof (induction g)
  case Nil
  then show ?case by simp
next
  case (Cons p g)
  obtain k' cf where p: "p = (k', cf)" by (cases p)
  show ?case
  proof (cases "k' = k")
    case True
    then show ?thesis by (simp add: p)
  next
    case False
    then show ?thesis using Cons.IH by (simp add: p)
  qed
qed

lemma distinct_append_to: "distinct (map fst g) \<Longrightarrow> distinct (map fst (append_to k f g))"
  by (simp add: keys_append_to)

lemma group_filings_filter: "group_filings (filter is_ipes fs) g = group_filings fs g"
  by (induction fs arbitrary: g) (simp_all add: Let_def)

lemma all_filings_group:
  "all_filings (group_filings fs g) \<subseteq> all_filings g \<union> {f \<in> set fs. is_ipes f}"
proof (induction fs arbitrary: g)
  case Nil
  then show ?case by simp
next
  case (Cons f fs)
  show ?case
    using Cons.IH[of g] Cons.IH[of "append_to (normalize_company_name (strip (get_or f ''company_name'' ''''))) f g"]
    by (auto simp: Let_def all_filings_append_to)
qed

lemma distinct_group: "distinct (map fst g) \<Longrightarrow> distinct (map fst (group_filings fs g))"
  by (induction fs arbitrary: g) (simp_all add: Let_def distinct_append_to)

lemma keys_extend_delete:
  "map fst (filter (\<lambda>(k, fs). k \<noteq> k2)
       (map (\<lambda>(k, fs). if k = k1 then (k, fs @ extra) else (k, fs)) g))
   = filter (\<lambda>k. k \<noteq> k2) (map fst g)"
  by (induction g) (auto split: if_splits)

lemma keys_merge_into: "map fst (merge_into k1 k2 g) = filter (\<lambda>k. k \<noteq> k2) (map fst g)"
  unfolding merge_into_def by (rule keys_extend_delete)

lemma lookup_subset: "set (lookup g k) \<subseteq> all_filings g"
proof (cases "map_of g k")
  case None
  then show ?thesis by (simp add: lookup_def)
next
  case (Some cf)
  then have "(k, cf) \<in> set g" by (rule map_of_SomeD)
  then show ?thesis using Some by (auto simp: lookup_def all_filings_def)
qed

lemma all_filings_merge_into: "all_filings (merge_into k1 k2 g) \<subseteq> all_filings g"
proof
  fix f assume "f \<in> all_filings (merge_into k1 k2 g)"
  then obtain k cf where "(k, cf) \<in> set g" "f \<in> set cf \<or> f \<in> set (lookup g k2)"
    by (auto simp: all_filings_def merge_into_def split: if_splits)
  then show "f \<in> all_filings g"
    using lookup_subset[of g k2] by (auto simp: all_filings_def)
qed

lemma dedup_inner_inv:
  "distinct (map fst g) \<Longrightarrow>
   distinct (map fst (fst (dedup_inner k1 ks (g, sk)))) \<and>
   all_filings (fst (dedup_inner k1 ks (g, sk))) \<subseteq> all_filings g"
proof (induction ks arbitrary: g sk)
  case Nil
  then show ?case by simp
next
  case (Cons k2 ks)
  have d: "distinct (map fst (merge_into k1 k2 g))"
    using Cons.prems by (simp add: keys_merge_into)
  show ?case
    using Cons.IH[OF Cons.prems, of sk] Cons.IH[OF d, of "insert k2 sk"]
      all_filings_merge_into[of k1 k2 g]
    by auto
qed

lemma dedup_outer_inv:
  "distinct (map fst g) \<Longrightarrow>
   distinct (map fst (fst (dedup_outer ks (g, sk)))) \<and>
   all_filings (fst (dedup_outer ks (g, sk))) \<subseteq> all_filings g"
proof (induction ks arbitrary: g sk)
  case Nil
  then show ?case by simp
next
  case (Cons k1 ks)
  obtain g' sk' where i: "dedup_inner k1 ks (g, sk) = (g', sk')"
    by (cases "dedup_inner k1 ks (g, sk)")
  have g': "distinct (map fst g')" "all_filings g' \<subseteq> all_filings g"
    using dedup_inner_inv[OF Cons.prems, of k1 ks sk] i by simp_all
  show ?case
    using Cons.IH[OF Cons.prems, of sk] Cons.IH[OF g'(1), of sk'] g'(2) i
    by auto
qed

lemma clusters_distinct: "distinct (map fst (deduplicate (group_filings fs [])))"
  using dedup_outer_inv[of "group_filings fs []"] distinct_group[of "[]" fs]
  by (simp add: deduplicate_def)

lemma clusters_filings:
  "all_filings (deduplicate (group_filings fs [])) \<subseteq> {f \<in> set fs. is_ipes f}"
proof -
  have "all_filings (deduplicate (group_filings fs [])) \<subseteq> all_filings (group_filings fs [])"
    using dedup_outer_inv[of "group_filings fs []"] distinct_group[of "[]" fs]
    by (simp add: deduplicate_def)
  also have "\<dots> \<subseteq> {f \<in> set fs. is_ipes f}"
    using all_filings_group[of fs "[]"] by (simp add: all_filings_def)
  finally show ?thesis .
qed


lemma sort_filings_Inr_sorted:
  assumes "sort_filings xs = Inr ys"
  shows "sorted (rev (map (\<lambda>x. case date_received x of Some d \<Rightarrow> d | None \<Rightarrow> []) ys))"
  using assms by (auto simp: sort_filings_def sort_desc_descending split: if_splits)

lemma Filing_date:
  "Filing x = Inr y \<Longrightarrow> (case date_received x of Some d \<Rightarrow> d | None \<Rightarrow> []) = date_received y"
  by (auto simp: Filing_def split: option.splits)

lemma validated_dates:
  assumes "\<forall>x \<in> set xs. \<exists>y. Filing x = Inr y"
  shows "map date_received (map (\<lambda>x. projr (Filing x)) xs)
         = map (\<lambda>x. case date_received x of Some d \<Rightarrow> d | None \<Rightarrow> []) xs"
  using assms by (induction xs) (auto simp: Filing_date)

lemma assemble_all_emitted:
  assumes "assemble_all g ([], 0, []) = Inr (cs, n, elog)" and "c \<in> set cs"
  shows "\<exists>cl \<in> set g. emitted_from cl c"
proof -
  let ?P = "\<lambda>st. \<forall>c \<in> set (fst st). \<exists>cl \<in> set g. emitted_from cl c"
  have "?P (cs, n, elog)"
  proof (rule assemble_all_inv[OF assms(1), where P = ?P])
    show "?P ([], 0, [])" by simp
  next
    fix cl s s' assume cl_in: "cl \<in> set g" and P: "?P s" and step: "assemble cl s = Inr s'"
    obtain k cf where cl: "cl = (k, cf)" by (cases cl)
    obtain cs0 n0 l0 where s: "s = (cs0, n0, l0)" by (cases s)
    from step[unfolded cl s] show "?P s'"
    proof (cases rule: assemble_cases)
      case skipped
      then show ?thesis using P s by simp
    next
      case (emitted pf v)
      then have "emitted_from cl v" by (auto simp: emitted_from_def cl)
      then show ?thesis using P s emitted(1) cl_in by auto
    next
      case (invalid e)
      then show ?thesis using P s by simp
    qed
  qed
  then show ?thesis using assms(2) by simp
qed

lemma structure_data_emitted:
  assumes "structure_data e fs = Inr (cs, h)" and "c \<in> set cs"
  shows "\<exists>cl \<in> set (deduplicate (group_filings fs [])). emitted_from cl c"
proof -
  from assms(1) obtain n elog where
    "assemble_all (deduplicate (group_filings fs [])) ([], 0, []) = Inr (cs, n, elog)"
    by (rule structure_dataD)
  from assemble_all_emitted[OF this assms(2)] show ?thesis .
qed


lemma comment_not_application:
  "f ''submission_type'' = Some ''COMMENT'' \<Longrightarrow> \<not> is_application_type f"
proof -
  have "\<not> list_ex (\<lambda>t. contains t (upper ''COMMENT'')) [''APPLICATION'', ''REQUEST'', ''PETITION'']"
    by code_simp
  then show "f ''submission_type'' = Some ''COMMENT'' \<Longrightarrow> \<not> is_application_type f"
    by (simp add: is_application_type_def get_or_def)
qed










text \<open>Matching and substitution.\<close>

lemma stars_suffix:
  "q \<in> set (stars p pos) \<Longrightarrow> length (snd q) \<le> length (snd pos) \<and> set (snd q) \<subseteq> set (snd pos)"
  by (induction p pos rule: stars.induct) (auto split: if_splits)

lemma rmatch_suffix:
  "q \<in> set (rmatch ic r pos) \<Longrightarrow> length (snd q) \<le> length (snd pos) \<and> set (snd q) \<subseteq> set (snd pos)"
proof (induction r arbitrary: pos q)
  case (Seq r1 r2)
  from Seq.prems obtain m where m: "m \<in> set (rmatch ic r1 pos)" "q \<in> set (rmatch ic r2 m)"
    by auto
  from Seq.IH(1)[OF m(1)] Seq.IH(2)[OF m(2)] show ?case by auto
next
  case (Star p)
  then show ?case using stars_suffix[of q p pos] by simp
next
  case (Alt r1 r2)
  from Alt.prems have "q \<in> set (rmatch ic r1 pos) \<or> q \<in> set (rmatch ic r2 pos)" by simp
  then show ?case
  proof
    assume "q \<in> set (rmatch ic r1 pos)"
    then show ?thesis by (rule Alt.IH(1))
  next
    assume "q \<in> set (rmatch ic r2 pos)"
    then show ?thesis by (rule Alt.IH(2))
  qed
next
  case (Opt r)
  from Opt.prems have "q \<in> set (rmatch ic r pos) \<or> q = pos" by auto
  then show ?case
  proof
    assume "q \<in> set (rmatch ic r pos)"
    then show ?thesis by (rule Opt.IH)
  next
    assume "q = pos"
    then show ?thesis by simp
  qed
next
  case (Lit a)
  then show ?case by (cases pos) (auto split: list.splits if_splits)
next
  case (Cls p)
  then show ?case by (cases pos) (auto split: list.splits if_splits)
qed (auto split: if_splits)

lemma rmatch_nonempty:
  "nonempty r \<Longrightarrow> q \<in> set (rmatch ic r pos) \<Longrightarrow> length (snd q) < length (snd pos)"
proof (induction r arbitrary: pos q)
  case (Seq r1 r2)
  from Seq.prems(2) obtain m where m: "m \<in> set (rmatch ic r1 pos)" "q \<in> set (rmatch ic r2 m)"
    by auto
  from Seq.prems(1) have "nonempty r1 \<or> nonempty r2" by simp
  then show ?case
  proof
    assume "nonempty r1"
    from Seq.IH(1)[OF this m(1)] rmatch_suffix[OF m(2)] show ?thesis by simp
  next
    assume "nonempty r2"
    from Seq.IH(2)[OF this m(2)] rmatch_suffix[OF m(1)] show ?thesis by simp
  qed
next
  case (Alt r1 r2)
  from Alt.prems have "q \<in> set (rmatch ic r1 pos) \<or> q \<in> set (rmatch ic r2 pos)" by simp
  then show ?case
  proof
    assume "q \<in> set (rmatch ic r1 pos)"
    then show ?thesis using Alt.IH(1)[of q pos] Alt.prems(1) by simp
  next
    assume "q \<in> set (rmatch ic r2 pos)"
    then show ?thesis using Alt.IH(2)[of q pos] Alt.prems(1) by simp
  qed
next
  case (Lit a)
  then show ?case by (cases pos) (auto split: list.splits if_splits)
next
  case (Cls p)
  then show ?case by (cases pos) (auto split: list.splits if_splits)
qed simp_all

lemma set_re_sub_from: "set (re_sub_from ic r repl prev s) \<subseteq> set s \<union> set repl"
proof (induction ic r repl prev s rule: re_sub_from.induct)
  case (1 ic r repl prev)
  then show ?case by simp
next
  case (2 ic r repl prev c cs)
  show ?case
  proof (cases "rmatch ic r (prev, c # cs)")
    case Nil
    then show ?thesis using 2(1) by auto
  next
    case (Cons q qs)
    then have "q \<in> set (rmatch ic r (prev, c # cs))" by simp
    from rmatch_suffix[OF this] have sub: "set (snd q) \<subseteq> set (c # cs)" by simp
    show ?thesis
    proof (cases "length (snd q) < length (c # cs)")
      case True
      then show ?thesis using Cons 2(2)[OF Cons True] sub by auto
    next
      case False
      then show ?thesis using Cons 2(3)[OF Cons False] by auto
    qed
  qed
qed

lemma length_re_sub_from: "length (re_sub_from ic r [] prev s) \<le> length s"
proof (induction ic r "[] :: string" prev s rule: re_sub_from.induct)
  case (1 ic r prev)
  then show ?case by simp
next
  case (2 ic r prev c cs)
  show ?case
  proof (cases "rmatch ic r (prev, c # cs)")
    case Nil
    then show ?thesis using 2(1) by auto
  next
    case (Cons q qs)
    show ?thesis
    proof (cases "length (snd q) < length (c # cs)")
      case True
      then show ?thesis using Cons 2(2)[OF Cons True] by auto
    next
      case False
      then show ?thesis using Cons 2(3)[OF Cons False] by auto
    qed
  qed
qed

lemma re_sub_from_no_match:
  "\<not> re_search_from ic r prev s \<Longrightarrow> re_sub_from ic r repl prev s = s"
  by (induction s arbitrary: prev) auto

lemma re_sub_from_shrinks:
  "nonempty r \<Longrightarrow> re_search_from ic r prev s \<Longrightarrow> length (re_sub_from ic r [] prev s) < length s"
proof (induction s arbitrary: prev)
  case Nil
  then show ?case using rmatch_nonempty[of r _ ic "(prev, [])"] by (cases "rmatch ic r (prev, [])") auto
next
  case (Cons c cs)
  show ?case
  proof (cases "rmatch ic r (prev, c # cs)")
    case Nil
    then show ?thesis using Cons by auto
  next
    case q: (Cons q qs)
    then have "q \<in> set (rmatch ic r (prev, c # cs))" by simp
    from rmatch_nonempty[OF Cons.prems(1) this] have lt: "length (snd q) < length (c # cs)" by simp
    then show ?thesis
      using q length_re_sub_from[of ic r "fst q" "snd q"] by auto
  qed
qed

lemma lower_char_idem: "lower_char (lower_char c) = lower_char c"
  by (auto simp: lower_char_def split: option.splits if_splits)

lemma lower_char_space: "lower_char CHR '' '' = CHR '' ''"
  by (simp add: lower_char_def)

lemma is_space_blank: "is_space CHR '' ''"
  by (simp add: is_space_def)

lemma word_not_space: "is_word c \<Longrightarrow> \<not> is_space c"
  by (auto simp: is_word_def is_space_def Let_def)

lemma lower_idem: "(\<forall>c \<in> set k. lower_char c = c) \<Longrightarrow> lower k = k"
  by (simp add: lower_def map_idI)

text \<open>strip\<close>

lemma strip_decomp: "\<exists>a b. s = a @ strip s @ b"
proof -
  let ?u = "dropWhile is_space s"
  have "s = takeWhile is_space s @ ?u" by simp
  moreover have "?u = rev (dropWhile is_space (rev ?u)) @ rev (takeWhile is_space (rev ?u))"
    by (metis rev_append rev_rev_ident takeWhile_dropWhile_id)
  ultimately have "s = takeWhile is_space s @ strip s @ rev (takeWhile is_space (rev ?u))"
    by (simp add: strip_def)
  then show ?thesis by blast
qed

lemma set_strip: "set (strip s) \<subseteq> set s"
  using strip_decomp[of s] by (metis Un_iff set_append subsetI)

lemma length_strip: "length (strip s) \<le> length s"
  using strip_decomp[of s] by (metis le_add1 le_add2 le_trans length_append)

lemma strip_ends: "strip s \<noteq> [] \<Longrightarrow> \<not> is_space (hd (strip s)) \<and> \<not> is_space (last (strip s))"
proof -
  assume ne: "strip s \<noteq> []"
  let ?u = "dropWhile is_space s"
  let ?w = "dropWhile is_space (rev ?u)"
  have w: "?w \<noteq> []" using ne by (simp add: strip_def)
  then have hw: "\<not> is_space (hd ?w)" by (rule hd_dropWhile)
  have "last (strip s) = hd ?w" using w by (simp add: strip_def last_rev)
  then have l: "\<not> is_space (last (strip s))" using hw by simp
  have "?u \<noteq> []" using w by (metis dropWhile.simps(1) rev.simps(1))
  then have hu: "\<not> is_space (hd ?u)" by (rule hd_dropWhile)
  obtain b where b: "?u = strip s @ b"
    by (metis rev_append rev_rev_ident takeWhile_dropWhile_id strip_def)
  then have "hd (strip s) = hd ?u" using ne by simp
  then show ?thesis using hu l by simp
qed

lemma strip_id: "s = [] \<or> (\<not> is_space (hd s) \<and> \<not> is_space (last s)) \<Longrightarrow> strip s = s"
proof (cases s)
  case Nil
  then show ?thesis by (simp add: strip_def)
next
  case (Cons c cs)
  assume "s = [] \<or> (\<not> is_space (hd s) \<and> \<not> is_space (last s))"
  with Cons have h: "\<not> is_space c" and l: "\<not> is_space (last s)" by auto
  have 1: "dropWhile is_space s = s" using h Cons by simp
  have "rev s \<noteq> []" using Cons by simp
  then obtain x xs where r: "rev s = x # xs" by (cases "rev s") auto
  have "hd (rev s) = last s" using Cons by (simp add: hd_rev)
  then have "x = last s" using r by simp
  then have 2: "dropWhile is_space (rev s) = rev s"
    using l unfolding r by simp
  show ?thesis by (simp add: strip_def 1 2)
qed

text \<open>single spacing\<close>

lemma no_double_space_Cons:
  "no_double_space (c # xs) \<longleftrightarrow> (xs = [] \<or> \<not> (is_space c \<and> is_space (hd xs))) \<and> no_double_space xs"
  by (cases xs) auto

lemma no_double_space_append:
  "no_double_space (xs @ ys) \<Longrightarrow> no_double_space xs \<and> no_double_space ys"
proof (induction xs)
  case Nil
  then show ?case by simp
next
  case (Cons x xs)
  then show ?case by (cases xs; cases ys) (auto simp: no_double_space_Cons)
qed

lemma no_double_space_strip: "no_double_space s \<Longrightarrow> no_double_space (strip s)"
  using strip_decomp[of s] by (metis no_double_space_append)

text \<open>collapse\<close>

lemma stars_hd: "\<exists>q qs. stars p (prev, s) = q # qs \<and> snd q = dropWhile p s"
  by (induction s arbitrary: prev) (auto, metis append_Cons)

lemma re_sub_spaces: "re_sub_from False spaces '' '' prev s = collapse s"
proof (induction s arbitrary: prev rule: collapse.induct)
  case 1
  then show ?case by simp
next
  case (2 c cs)
  show ?case
  proof (cases "is_space c")
    case False
    then show ?thesis using 2(2)[OF False] by (simp add: spaces_def)
  next
    case True
    obtain q qs where q: "stars is_space (Some c, cs) = q # qs" "snd q = dropWhile is_space cs"
      using stars_hd by blast
    have "length (snd q) < length (c # cs)"
      using q(2) length_dropWhile_le[of is_space cs] by simp
    then show ?thesis using True q 2(1)[OF True, of "fst q"] by (simp add: spaces_def)
  qed
qed

lemma collapse_hd: "s \<noteq> [] \<Longrightarrow> \<not> is_space (hd s) \<Longrightarrow> collapse s \<noteq> [] \<and> hd (collapse s) = hd s"
  by (cases s) auto

lemma no_double_space_collapse: "no_double_space (collapse s)"
proof (induction s rule: collapse.induct)
  case 1
  then show ?case by simp
next
  case (2 c cs)
  show ?case
  proof (cases "is_space c")
    case False
    then show ?thesis using 2(2)[OF False] by (simp add: no_double_space_Cons)
  next
    case True
    let ?u = "dropWhile is_space cs"
    have "collapse ?u = [] \<or> \<not> is_space (hd (collapse ?u))"
    proof (cases "?u = []")
      case True
      then show ?thesis by (metis collapse.simps(1))
    next
      case False
      then have "\<not> is_space (hd ?u)" by (rule hd_dropWhile)
      then show ?thesis using collapse_hd[OF False] by simp
    qed
    then show ?thesis using True 2(1)[OF True] by (auto simp: no_double_space_Cons)
  qed
qed

lemma set_collapse: "set (collapse s) \<subseteq> {c \<in> set s. \<not> is_space c} \<union> {CHR '' ''}"
proof (induction s rule: collapse.induct)
  case 1
  then show ?case by simp
next
  case (2 c cs)
  show ?case
  proof (cases "is_space c")
    case False
    then show ?thesis using 2(2)[OF False] by auto
  next
    case True
    have "set (dropWhile is_space cs) \<subseteq> set cs" by (simp add: set_dropWhileD subsetI)
    then show ?thesis using True 2(1)[OF True] by auto
  qed
qed

lemma length_collapse: "length (collapse s) \<le> length s"
proof (induction s rule: collapse.induct)
  case 1
  then show ?case by simp
next
  case (2 c cs)
  show ?case
  proof (cases "is_space c")
    case False
    then show ?thesis using 2(2)[OF False] by auto
  next
    case True
    then show ?thesis using 2(1)[OF True] length_dropWhile_le[of is_space cs] by auto
  qed
qed

lemma collapse_id:
  "no_double_space s \<Longrightarrow> \<forall>c \<in> set s. is_space c \<longrightarrow> c = CHR '' '' \<Longrightarrow> collapse s = s"
proof (induction s rule: collapse.induct)
  case 1
  then show ?case by simp
next
  case (2 c cs)
  show ?case
  proof (cases "is_space c")
    case False
    then show ?thesis using 2(2)[OF False] 2(3,4) by (simp add: no_double_space_Cons)
  next
    case True
    have "dropWhile is_space cs = cs"
      using 2(3) True by (cases cs) (auto simp: no_double_space_Cons)
    then show ?thesis using True 2(1)[OF True] 2(3,4) by (simp add: no_double_space_Cons)
  qed
qed

text \<open>punctuation\<close>

lemma re_sub_punct:
  "re_sub_from False punct '' '' prev s
   = map (\<lambda>c. if \<not> is_word c \<and> \<not> is_space c then CHR '' '' else c) s"
  by (induction s arbitrary: prev) (auto simp: punct_def)

lemma set_foldl_re_sub: "set (foldl (\<lambda>n suffix. re_sub ic suffix [] n) x ps) \<subseteq> set x"
proof (induction ps arbitrary: x)
  case Nil
  then show ?case by simp
next
  case (Cons p ps)
  have "set (re_sub ic p [] x) \<subseteq> set x"
    using set_re_sub_from[of ic p "[]" None x] by (simp add: re_sub_def)
  with Cons[of "re_sub ic p [] x"] show ?case by auto
qed

lemma length_foldl_re_sub: "length (foldl (\<lambda>n suffix. re_sub ic suffix [] n) x ps) \<le> length x"
proof (induction ps arbitrary: x)
  case Nil
  then show ?case by simp
next
  case (Cons p ps)
  have "length (re_sub ic p [] x) \<le> length x"
    using length_re_sub_from[of ic p None x] by (simp add: re_sub_def)
  with Cons[of "re_sub ic p [] x"] show ?case by auto
qed

lemma foldl_re_sub_id:
  "\<forall>p \<in> set ps. \<not> re_search ic p x \<Longrightarrow> foldl (\<lambda>n suffix. re_sub ic suffix [] n) x ps = x"
  by (induction ps) (auto simp: re_sub_def re_search_def re_sub_from_no_match)

lemma foldl_re_sub_shrinks:
  "\<forall>p \<in> set ps. nonempty p \<Longrightarrow> \<exists>p \<in> set ps. re_search ic p x \<Longrightarrow>
   length (foldl (\<lambda>n suffix. re_sub ic suffix [] n) x ps) < length x"
proof (induction ps arbitrary: x)
  case Nil
  then show ?case by simp
next
  case (Cons p ps)
  show ?case
  proof (cases "re_search ic p x")
    case True
    then have "length (re_sub ic p [] x) < length x"
      using Cons.prems(1) re_sub_from_shrinks[of p ic None x] by (simp add: re_sub_def re_search_def)
    then show ?thesis
      using length_foldl_re_sub[of ic "re_sub ic p [] x" ps] by simp
  next
    case False
    then have id: "re_sub ic p [] x = x"
      by (simp add: re_sub_def re_search_def re_sub_from_no_match)
    from False Cons.prems(2) have "\<exists>p \<in> set ps. re_search ic p x" by auto
    from Cons.IH[OF _ this] Cons.prems(1) show ?thesis by (simp add: id)
  qed
qed

lemma nonempty_suffixes: "\<forall>p \<in> set suffixes. nonempty p"
  by (simp add: suffixes_def suffix1_def suffix2_def suffix3_def suffix4_def dot_opt_def)

lemma nonempty_punct_spaces: "nonempty punct" "nonempty spaces"
  by (simp_all add: punct_def spaces_def)

lemma key_form_Nil: "key_form []"
  by (simp add: key_form_def)

lemma normalize_key_form: "key_form (normalize_company_name s)"
proof (cases "s = []")
  case True
  then show ?thesis by (simp add: normalize_company_name_def key_form_Nil)
next
  case False
  define t where "t = foldl (\<lambda>n suffix. re_sub True suffix [] n) (strip (lower s)) suffixes"
  define t' where "t' = map (\<lambda>c. if \<not> is_word c \<and> \<not> is_space c then CHR '' '' else c) t"
  define v where "v = collapse t'"
  have k: "normalize_company_name s = strip v"
    using False
    by (simp add: normalize_company_name_def Let_def re_sub_def re_sub_punct re_sub_spaces
        t_def t'_def v_def)
  have "set t \<subseteq> set (lower s)"
    unfolding t_def using set_foldl_re_sub[of True "strip (lower s)" suffixes] set_strip[of "lower s"]
    by blast
  then have lt: "\<forall>c \<in> set t. lower_char c = c"
    by (auto simp: lower_def lower_char_idem)
  have lt': "\<forall>c \<in> set t'. lower_char c = c \<and> (is_word c \<or> is_space c)"
    using lt by (auto simp: t'_def lower_char_space is_space_blank)
  have lv: "\<forall>c \<in> set v. lower_char c = c \<and> (is_word c \<or> c = CHR '' '')"
    using lt' set_collapse[of t'] by (auto simp: v_def lower_char_space)
  have nv: "no_double_space v"
    by (simp add: v_def no_double_space_collapse)
  show ?thesis
    unfolding k key_form_def
    using lv set_strip[of v] no_double_space_strip[OF nv] strip_ends[of v] by blast
qed

lemma re_search_Nil: "nonempty p \<Longrightarrow> \<not> re_search ic p []"
  using rmatch_nonempty[of p _ ic "(None, [])"]
  by (cases "rmatch ic p (None, [])") (auto simp: re_search_def)

lemma key_form_steps:
  assumes "key_form k"
  shows "lower k = k" "strip k = k"
    "map (\<lambda>c. if \<not> is_word c \<and> \<not> is_space c then CHR '' '' else c) k = k"
    "collapse k = k"
proof -
  show "lower k = k" using assms by (simp add: key_form_def lower_idem)
  show "strip k = k" using assms by (intro strip_id) (auto simp: key_form_def)
  show "map (\<lambda>c. if \<not> is_word c \<and> \<not> is_space c then CHR '' '' else c) k = k"
    using assms by (intro map_idI) (auto simp: key_form_def)
  show "collapse k = k"
    using assms by (intro collapse_id) (auto simp: key_form_def dest: word_not_space)
qed

lemma key_form_fixpoint:
  assumes "key_form k" and "\<forall>p \<in> set suffixes. \<not> re_search True p k"
  shows "normalize_company_name k = k"
proof (cases "k = []")
  case True
  then show ?thesis by (simp add: normalize_company_name_def)
next
  case False
  have f: "foldl (\<lambda>n suffix. re_sub True suffix [] n) k suffixes = k"
    by (rule foldl_re_sub_id[OF assms(2)])
  show ?thesis
    using False
    unfolding normalize_company_name_def Let_def key_form_steps(1,2)[OF assms(1)] f
    by (simp add: re_sub_def re_sub_punct re_sub_spaces key_form_steps[OF assms(1)])
qed

lemma key_form_shrinks:
  assumes "key_form k" and "\<exists>p \<in> set suffixes. re_search True p k"
  shows "length (normalize_company_name k) < length k"
proof -
  have ne: "k \<noteq> []"
    using assms(2) nonempty_suffixes re_search_Nil by blast
  define t where "t = foldl (\<lambda>n suffix. re_sub True suffix [] n) k suffixes"
  have lt: "length t < length k"
    unfolding t_def by (rule foldl_re_sub_shrinks[OF nonempty_suffixes assms(2)])
  have "normalize_company_name k
      = strip (collapse (map (\<lambda>c. if \<not> is_word c \<and> \<not> is_space c then CHR '' '' else c) t))"
    using ne
    unfolding normalize_company_name_def Let_def key_form_steps(1,2)[OF assms(1)] t_def
    by (simp add: re_sub_def re_sub_punct re_sub_spaces)
  then have "length (normalize_company_name k) \<le> length t"
    using length_strip[of "collapse (map (\<lambda>c. if \<not> is_word c \<and> \<not> is_space c then CHR '' '' else c) t)"]
      length_collapse[of "map (\<lambda>c. if \<not> is_word c \<and> \<not> is_space c then CHR '' '' else c) t"]
    by simp
  with lt show ?thesis by simp
qed

lemma acme_key_clean:
  "list_all (\<lambda>suffix. \<not> re_search True suffix ''acme communications'') suffixes"
  by code_simp

lemma dba_foo:
  "normalize_company_name ''dba-foo'' = ''dba foo''"
  "normalize_company_name ''dba foo'' = ''''"
  "re_search True suffix4 ''dba foo''"
  by code_simp+

text \<open>When a run raises: only in the sort of a cluster of two or more filings, one of them undated.\<close>

lemma sort_filings_raises:
  "sort_filings xs = Inl err \<longleftrightarrow> length xs \<ge> 2 \<and> (\<exists>x \<in> set xs. date_received x = None)"
  by (cases err) (auto simp: sort_filings_def list_ex_iff)

lemma assemble_raises:
  "(\<exists>err. assemble (k, cf) st = Inl err)
   \<longleftrightarrow> length cf \<ge> 2 \<and> (\<exists>f \<in> set cf. f ''date_received'' = None)"
proof -
  obtain cs n elog where st: "st = (cs, n, elog)" by (cases st)
  have "(\<exists>err. assemble (k, cf) st = Inl err)
        \<longleftrightarrow> (\<exists>err. sort_filings (map filing_record cf) = Inl err)"
    by (auto simp: assemble_def st Let_def split: sum.splits)
  also have "\<dots> \<longleftrightarrow> length cf \<ge> 2 \<and> (\<exists>f \<in> set cf. f ''date_received'' = None)"
    by (auto simp: sort_filings_raises filing_record_def Let_def)
  finally show ?thesis .
qed

lemma assemble_all_raises:
  "(\<exists>err. assemble_all g st = Inl err)
   \<longleftrightarrow> (\<exists>(k, cf) \<in> set g. length cf \<ge> 2 \<and> (\<exists>f \<in> set cf. f ''date_received'' = None))"
proof (induction g arbitrary: st)
  case Nil
  then show ?case by simp
next
  case (Cons cl g)
  obtain k cf where cl: "cl = (k, cf)" by (cases cl)
  show ?case
  proof (cases "assemble (k, cf) st")
    case (Inl err)
    then have "length cf \<ge> 2 \<and> (\<exists>f \<in> set cf. f ''date_received'' = None)"
      using assemble_raises[of k cf st] by blast
    then show ?thesis using Inl by (auto simp: cl)
  next
    case (Inr st')
    then have "\<not> (length cf \<ge> 2 \<and> (\<exists>f \<in> set cf. f ''date_received'' = None))"
      using assemble_raises[of k cf st] by auto
    then show ?thesis using Inr Cons.IH[of st'] by (auto simp: cl)
  qed
qed

lemma structure_data_raises:
  "(\<exists>err. structure_data e fs = Inl err)
   \<longleftrightarrow> (\<exists>(k, cf) \<in> set (deduplicate (group_filings fs [])).
          length cf \<ge> 2 \<and> (\<exists>f \<in> set cf. f ''date_received'' = None))"
proof -
  have "(\<exists>err. structure_data e fs = Inl err)
        \<longleftrightarrow> (\<exists>err. assemble_all (deduplicate (group_filings fs [])) ([], 0, []) = Inl err)"
    by (auto simp: structure_data_def Let_def split: sum.splits prod.splits)
  then show ?thesis
    using assemble_all_raises[of "deduplicate (group_filings fs [])" "([], 0, [])"] by blast
qed

lemma dated_batch_returns:
  assumes "\<forall>f \<in> set fs. is_ipes f \<longrightarrow> f ''date_received'' \<noteq> None"
  shows "\<exists>cs h. structure_data e fs = Inr (cs, h)"
proof -
  have "\<not> (\<exists>(k, cf) \<in> set (deduplicate (group_filings fs [])).
          length cf \<ge> 2 \<and> (\<exists>f \<in> set cf. f ''date_received'' = None))"
    using clusters_filings[of fs] assms by (fastforce simp: all_filings_def)
  then have "\<not> (\<exists>err. structure_data e fs = Inl err)"
    using structure_data_raises[of e fs] by blast
  then show ?thesis by (cases "structure_data e fs") auto
qed

text \<open>The runs on the example data.\<close>

lemma acme_strings:
  "strip ''Acme Communications LLC'' = ''Acme Communications LLC''"
  "strip ''Acme Communications'' = ''Acme Communications''"
  "should_exclude ''Acme Communications LLC'' = False"
  "should_exclude ''Acme Communications'' = False"
  "normalize_company_name ''Acme Communications LLC'' = ''acme communications''"
  "normalize_company_name ''Acme Communications'' = ''acme communications''"
  "is_likely_individual ''Acme Communications LLC'' = False"
  "contains ''APPLICATION'' (upper ''APPLICATION FOR AUTHORIZATION'') = True"
  "split_semi ''http://x/doc1'' = [''http://x/doc1'']"
  by code_simp+

lemma acme_clusters:
  fixes f1 f2 :: raw_filing
  assumes "f1 ''company_name'' = Some ''Acme Communications LLC''"
    and "f2 ''company_name'' = Some ''Acme Communications''"
    and "is_ipes f1" "is_ipes f2"
  shows "deduplicate (group_filings [f1, f2] []) = [(''acme communications'', [f1, f2])]"
proof -
  have "group_filings [f1, f2] [] = [(''acme communications'', [f1, f2])]"
    using assms by (simp add: get_or_def acme_strings)
  then show ?thesis by (simp add: deduplicate_def)
qed

lemma sort_two_filings:
  assumes "date_received r1 = Some d1" "date_received r2 = Some d2" "d1 < d2"
  shows "sort_filings [r1, r2] = Inr [r2, r1]"
  using assms by (auto simp: sort_filings_def sort_desc_def)

lemma acme_run:
  fixes f1 f2 :: raw_filing
  assumes f1: "f1 ''company_name'' = Some ''Acme Communications LLC''"
      "f1 ''submission_type'' = Some ''APPLICATION FOR AUTHORIZATION''"
      "f1 ''date_received'' = Some t1"
      "f1 ''document_urls'' = Some ''http://x/doc1''"
    and f2: "f2 ''company_name'' = Some ''Acme Communications''"
      "f2 ''submission_type'' = Some ''APPLICATION''"
      "f2 ''date_received'' = Some t2"
      "f2 ''document_urls'' = Some ''''"
    and lt: "t1 < t2"
    and ipes: "is_ipes f1" "is_ipes f2"
    and x1: "f1 ''submission_id'' = Some i1" "f1 ''docket_number'' = Some d1"
      "f1 ''filing_status'' = Some s1" "f1 ''detail_url'' = Some u1"
    and x2: "f2 ''submission_id'' = Some i2" "f2 ''docket_number'' = Some d2"
      "f2 ''filing_status'' = Some s2" "f2 ''detail_url'' = Some u2"
  shows "structure_data e [f1, f2] =
     Inr ([\<lparr>company_id = generate_company_id ''acme communications'',
            entity_name = ''Acme Communications LLC'',
            normalized_name = ''acme communications'',
            entity_type = ''Company'',
            is_applicant = True,
            filing_count = 2,
            filings =
              [\<lparr>filing_id = i2, date_received = t2, docket_number = d2,
                submission_type = ''APPLICATION'', filing_status = s2,
                document_urls = [], detail_url = u2\<rparr>,
               \<lparr>filing_id = i1, date_received = t1, docket_number = d1,
                submission_type = ''APPLICATION FOR AUTHORIZATION'', filing_status = s1,
                document_urls = [''http://x/doc1''], detail_url = u1\<rparr>],
            enrichment = []\<rparr>],
          load_history (history e) @ [Stats (stats_at (now e) 1 0 [])])"
proof -
  have g: "deduplicate (group_filings [f1, f2] []) = [(''acme communications'', [f1, f2])]"
    using f1(1) f2(1) ipes by (rule acme_clusters)
  have a1: "is_application_type f1"
    using f1(2) by (simp add: is_application_type_def get_or_def acme_strings)
  have r1: "filing_record f1 = \<lparr>filing_id = Some i1, date_received = Some t1,
      docket_number = Some d1, submission_type = Some ''APPLICATION FOR AUTHORIZATION'',
      filing_status = Some s1, document_urls = [''http://x/doc1''], detail_url = Some u1\<rparr>"
    using f1 x1 by (simp add: filing_record_def acme_strings)
  have r2: "filing_record f2 = \<lparr>filing_id = Some i2, date_received = Some t2,
      docket_number = Some d2, submission_type = Some ''APPLICATION'',
      filing_status = Some s2, document_urls = [], detail_url = Some u2\<rparr>"
    using f2 x2 by (simp add: filing_record_def)
  have s: "sort_filings [filing_record f1, filing_record f2] = Inr [filing_record f2, filing_record f1]"
    by (rule sort_two_filings[OF _ _ lt]) (simp_all add: r1 r2)
  have a: "assemble (''acme communications'', [f1, f2]) ([], 0, []) =
     Inr ([\<lparr>company_id = generate_company_id ''acme communications'',
            entity_name = ''Acme Communications LLC'',
            normalized_name = ''acme communications'',
            entity_type = ''Company'',
            is_applicant = True,
            filing_count = 2,
            filings =
              [\<lparr>filing_id = i2, date_received = t2, docket_number = d2,
                submission_type = ''APPLICATION'', filing_status = s2,
                document_urls = [], detail_url = u2\<rparr>,
               \<lparr>filing_id = i1, date_received = t1, docket_number = d1,
                submission_type = ''APPLICATION FOR AUTHORIZATION'', filing_status = s1,
                document_urls = [''http://x/doc1''], detail_url = u1\<rparr>],
            enrichment = []\<rparr>], 0, [])"
    using f1(1) f2(1) a1
    by (simp add: assemble_def s get_or_def max_len_def acme_strings Let_def)
       (simp add: r1 r2 Company_def Filing_def Let_def enumerate_simps)
  show ?thesis
    unfolding structure_data_def g by (simp add: a sort_desc_const stats_at_def)
qed

lemma fetched_voip:
  "contains ''voip'' (lower ''Numbering Policies for Interconnected VoIP Providers'')"
  by code_simp

lemma fetched_ipes: "is_ipes ((fetched f n)(''date_received'' := d))"
  using fetched_voip by (simp add: is_ipes_def fetched_def get_or_def)

lemma acme_dated_run:
  assumes "t1 < t2"
  shows "structure_data e [(fetched acme1 ''1'')(''date_received'' \<mapsto> t1),
                           (fetched acme2 ''2'')(''date_received'' \<mapsto> t2)]
         = Inr ([acme_dated t1 t2], load_history (history e) @ [Stats (stats_at (now e) 1 0 [])])"
  unfolding acme_dated_def
  by (rule acme_run[where ?t1.0 = t1 and ?t2.0 = t2, THEN trans])
     (simp_all add: fetched_ipes assms, simp_all add: fetched_def acme1_def acme2_def)

lemma fetched_acme1: "(fetched acme1 ''1'')(''date_received'' \<mapsto> ''2023-05-01'') = fetched acme1 ''1''"
  by (rule ext) (simp add: fetched_def acme1_def)

lemma fetched_acme2: "(fetched acme2 ''2'')(''date_received'' \<mapsto> ''2023-06-01'') = fetched acme2 ''2''"
  by (rule ext) (simp add: fetched_def acme2_def)

lemma acme_dates: "(''2023-05-01'' :: string) < ''2023-06-01''" "('''' :: string) < ''2023-06-01''"
  by simp_all

lemma acme_fetched_run:
  "structure_data e [fetched acme1 ''1'', fetched acme2 ''2'']
   = Inr ([acme_company], load_history (history e) @ [Stats (stats_at (now e) 1 0 [])])"
  using acme_dated_run[OF acme_dates(1), of e]
  by (simp only: fetched_acme1 fetched_acme2 acme_company_def)

lemma acme_fetched_clusters:
  "deduplicate (group_filings [fetched acme1 ''1'', fetched acme2 ''2''] [])
   = [(''acme communications'', [fetched acme1 ''1'', fetched acme2 ''2''])]"
  using acme_clusters[of "fetched acme1 ''1''" "fetched acme2 ''2''"]
    fetched_ipes[of acme1 "''1''" "Some ''2023-05-01''"]
    fetched_ipes[of acme2 "''2''" "Some ''2023-06-01''"]
  by (simp only: fetched_acme1 fetched_acme2) (simp add: fetched_def acme1_def acme2_def)

lemma plural_pair_strings:
  "normalize_company_name ''a b'' = ''a b''"
  "normalize_company_name ''as bs'' = ''as bs''"
  "split ''a b'' = [''a'', ''b'']"
  "split ''as bs'' = [''as'', ''bs'']"
  "split ''a bs'' = [''a'', ''bs'']"
  "is_duplicate ''a b'' ''as bs'' = False"
  "is_duplicate ''a b'' ''a bs'' = True"
  "ratio ''a b'' ''a bs'' = 6 / 7"
  "diff_count [''a'', ''b''] [''a'', ''bs''] = 1 / 10"
  "(''a b'' :: string) \<le> ''as bs''"
  by code_simp+

lemma single_cluster:
  fixes z :: raw_filing
  assumes "z ''company_name'' = Some ''Acme Communications''" and "is_ipes z"
  shows "deduplicate (group_filings [z] []) = [(''acme communications'', [z])]"
proof -
  have "group_filings [z] [] = [(''acme communications'', [z])]"
    using assms by (simp add: get_or_def acme_strings)
  then show ?thesis by (simp add: deduplicate_def)
qed

text \<open>A comment on its own is grouped and then stopped by the gate.\<close>

lemma comment_run:
  fixes z :: raw_filing
  assumes "z ''company_name'' = Some ''Acme Communications''" and "is_ipes z"
    and "z ''submission_type'' = Some ''COMMENT''"
  shows "structure_data e [z] = Inr ([], load_history (history e) @ [Stats (stats_at (now e) 0 0 [])])"
proof -
  have g: "deduplicate (group_filings [z] []) = [(''acme communications'', [z])]"
    using assms(1,2) by (rule single_cluster)
  have n: "\<not> is_application_type z"
    using assms(3) by (rule comment_not_application)
  have a: "assemble (''acme communications'', [z]) ([], 0, []) = Inr ([], 0, [])"
    using n by (simp add: assemble_def sort_filings_def Let_def)
  show ?thesis
    unfolding structure_data_def g by (simp add: a sort_desc_const stats_at_def)
qed

text \<open>Two filings of one cluster, the first without a date: the sort raises.\<close>

lemma undated_run:
  fixes f1 f2 :: raw_filing
  assumes "f1 ''company_name'' = Some ''Acme Communications LLC''"
    and "f2 ''company_name'' = Some ''Acme Communications''"
    and "is_ipes f1" "is_ipes f2"
    and "f1 ''date_received'' = None"
  shows "structure_data e [f1, f2] = Inl TypeError"
proof -
  have g: "deduplicate (group_filings [f1, f2] []) = [(''acme communications'', [f1, f2])]"
    using assms(1-4) by (rule acme_clusters)
  have s: "sort_filings [filing_record f1, filing_record f2] = Inl TypeError"
    using assms(5) by (simp add: sort_filings_def filing_record_def Let_def)
  have a: "assemble (''acme communications'', [f1, f2]) ([], 0, []) = Inl TypeError"
    by (simp add: assemble_def s Let_def)
  show ?thesis
    unfolding structure_data_def g by (simp add: a)
qed

lemma as_written_not_ipes: "\<not> is_ipes acme1" "\<not> is_ipes acme2"
  by (simp_all add: is_ipes_def get_or_def acme1_def acme2_def lower_def)

lemma load_env0: "load_history (history env0) = []"
  by (simp add: env0_def load_history_def)

lemma load_env1: "load_history (history env1) = []"
  by (simp add: env1_def load_history_def)













lemma sorted_split_later:
  assumes "sorted ks" and "distinct ks" and "k1 \<in> set ks" and "k2 \<in> set ks" and "k1 < k2"
  shows "\<exists>pre post. ks = pre @ k1 # post \<and> k2 \<in> set post"
proof -
  from assms(3) obtain pre post where ks: "ks = pre @ k1 # post"
    by (auto dest: split_list)
  have "k2 \<notin> set pre"
  proof
    assume "k2 \<in> set pre"
    then have "k2 \<le> k1" using assms(1) by (auto simp: ks sorted_append)
    then show False using assms(5) by simp
  qed
  then have "k2 \<in> set post" using assms(4,5) by (auto simp: ks)
  then show ?thesis using ks by blast
qed




lemma plural_chain_strings:
  "sort [''a b'', ''a bs''] = [''a b'', ''a bs'']"
  "sort [''a b'', ''a bs'', ''a bss''] = [''a b'', ''a bs'', ''a bss'']"
  "split ''a bss'' = [''a'', ''bss'']"
  "diff_count [''a'', ''bs''] [''a'', ''bss''] = 1 / 10"
  "is_duplicate ''a b'' ''a bss'' = False"
  "is_duplicate ''a bs'' ''a bss'' = True"
  by code_simp+

text \<open>
  A key that an earlier key has absorbed is not compared again: \<open>a bs\<close> and \<open>a bss\<close>
  satisfy the predicate, but \<open>a b\<close> takes \<open>a bs\<close> first, and \<open>a bss\<close> stays.
\<close>

lemma absorbed_key_is_skipped:
  "deduplicate [(''a b'', [x]), (''a bs'', [y]), (''a bss'', [z])]
     = [(''a b'', [x, y]), (''a bss'', [z])]"
  by (simp add: deduplicate_def merge_into_def lookup_def plural_pair_strings
        plural_chain_strings)

section \<open>The claims of the specification\<close>

text \<open>
  C1, as stated, fails. The two raw filings of the scenario have neither a
  \<^verbatim>\<open>proceeding_description\<close> nor a \<^verbatim>\<open>docket_number\<close>, so the topic filter drops both and
  the run emits no Company record.
\<close>

theorem acme_as_written_emits_nothing:
  "structure_data env0 [acme1, acme2] = Inr ([], [Stats (stats_at ''2024-01-01T00:00:00'' 0 0 [])])"
  by (simp add: structure_data_def as_written_not_ipes deduplicate_def sort_desc_const
        stats_at_def env0_def load_history_def)

text \<open>
  C1, amended. When the two raw filings of the scenario also pass the topic filter and
  carry the fields \<^verbatim>\<open>submission_id\<close>, \<^verbatim>\<open>docket_number\<close>, \<^verbatim>\<open>filing_status\<close> and
  \<^verbatim>\<open>detail_url\<close> that the schema requires, the run emits exactly one Company record, with
  \<^verbatim>\<open>entity_name\<close> "Acme Communications LLC", \<^verbatim>\<open>filing_count\<close> 2, the filing of 2023-06-01
  before the filing of 2023-05-01, \<^verbatim>\<open>entity_type\<close> "Company" and \<^verbatim>\<open>is_applicant\<close> true.
\<close>

theorem acme_scenario:
  fixes f1 f2 :: raw_filing
  assumes "f1 ''company_name'' = Some ''Acme Communications LLC''"
    and "f1 ''submission_type'' = Some ''APPLICATION FOR AUTHORIZATION''"
    and "f1 ''date_received'' = Some ''2023-05-01''"
    and "f1 ''document_urls'' = Some ''http://x/doc1''"
    and "f2 ''company_name'' = Some ''Acme Communications''"
    and "f2 ''submission_type'' = Some ''APPLICATION''"
    and "f2 ''date_received'' = Some ''2023-06-01''"
    and "f2 ''document_urls'' = Some ''''"
    and "is_ipes f1" and "is_ipes f2"
    and "f1 ''submission_id'' = Some i1" and "f1 ''docket_number'' = Some d1"
    and "f1 ''filing_status'' = Some s1" and "f1 ''detail_url'' = Some u1"
    and "f2 ''submission_id'' = Some i2" and "f2 ''docket_number'' = Some d2"
    and "f2 ''filing_status'' = Some s2" and "f2 ''detail_url'' = Some u2"
  shows "structure_data e [f1, f2] =
           Inr ([\<lparr>company_id = generate_company_id ''acme communications'',
                  entity_name = ''Acme Communications LLC'',
                  normalized_name = ''acme communications'',
                  entity_type = ''Company'',
                  is_applicant = True,
                  filing_count = 2,
                  filings =
                    [\<lparr>filing_id = i2, date_received = ''2023-06-01'', docket_number = d2,
                      submission_type = ''APPLICATION'', filing_status = s2,
                      document_urls = [], detail_url = u2\<rparr>,
                     \<lparr>filing_id = i1, date_received = ''2023-05-01'', docket_number = d1,
                      submission_type = ''APPLICATION FOR AUTHORIZATION'', filing_status = s1,
                      document_urls = [''http://x/doc1''], detail_url = u1\<rparr>],
                  enrichment = []\<rparr>],
                load_history (history e) @ [Stats (stats_at (now e) 1 0 [])])"
  using assms(1-8) acme_dates(1) assms(9-18) by (rule acme_run)

theorem acme_scenario_witness:
  "is_ipes (fetched acme1 ''1'') \<and> is_ipes (fetched acme2 ''2'')
   \<and> fetched acme1 ''1'' ''company_name'' = Some ''Acme Communications LLC''
   \<and> fetched acme1 ''1'' ''submission_id'' = Some ''1''
   \<and> fetched acme2 ''2'' ''date_received'' = Some ''2023-06-01''
   \<and> fetched acme2 ''2'' ''detail_url'' = Some ''https://www.fcc.gov/ecfs/filing/2''
   \<and> structure_data env0 [fetched acme1 ''1'', fetched acme2 ''2'']
       = Inr ([acme_company], [Stats (stats_at (now env0) 1 0 [])])"
proof -
  have i: "is_ipes (fetched acme1 ''1'')" "is_ipes (fetched acme2 ''2'')"
    using fetched_ipes[of acme1 "''1''" "Some ''2023-05-01''"]
      fetched_ipes[of acme2 "''2''" "Some ''2023-06-01''"]
    by (simp_all only: fetched_acme1 fetched_acme2)
  have "structure_data env0 [fetched acme1 ''1'', fetched acme2 ''2'']
       = Inr ([acme_company], load_history (history env0) @ [Stats (stats_at (now env0) 1 0 [])])"
    unfolding acme_company_def acme_dated_def
    by (rule acme_scenario[where ?f1.0 = "fetched acme1 ''1''" and ?f2.0 = "fetched acme2 ''2''"
          and e = env0, THEN trans])
       (simp_all add: i, simp_all add: fetched_def acme1_def acme2_def)
  with i show ?thesis by (simp add: fetched_def acme1_def acme2_def load_env0)
qed

text \<open>
  C2, as stated, fails. The name \<open>dba-foo\<close> normalizes to \<open>dba foo\<close>: the hyphen keeps the
  doing-business-as pattern from matching and is then replaced by a space. The key
  \<open>dba foo\<close> matches the pattern and normalizes to the empty string.
\<close>

theorem normalize_not_idempotent:
  "normalize_company_name (normalize_company_name ''dba-foo'') \<noteq> normalize_company_name ''dba-foo''"
  by (simp add: dba_foo)

text \<open>
  C2, amended. Normalizing a normalized key returns the same key exactly when none of the
  four removal patterns of the normalizer (the three business-suffix patterns and the
  doing-business-as pattern) matches the key any more: for every input \<open>s\<close>, the
  normalizer is idempotent at \<open>s\<close> if and only if no entry of \<^verbatim>\<open>suffixes\<close> is found in
  the normalized name of \<open>s\<close>.
\<close>

theorem normalize_idempotent_iff:
  "normalize_company_name (normalize_company_name s) = normalize_company_name s
   \<longleftrightarrow> (\<forall>suffix \<in> set suffixes. \<not> re_search True suffix (normalize_company_name s))"
proof
  assume fixed: "normalize_company_name (normalize_company_name s) = normalize_company_name s"
  show "\<forall>suffix \<in> set suffixes. \<not> re_search True suffix (normalize_company_name s)"
  proof (rule ccontr)
    assume "\<not> (\<forall>suffix \<in> set suffixes. \<not> re_search True suffix (normalize_company_name s))"
    then have "\<exists>p \<in> set suffixes. re_search True p (normalize_company_name s)" by blast
    from key_form_shrinks[OF normalize_key_form this] fixed show False by simp
  qed
next
  assume "\<forall>suffix \<in> set suffixes. \<not> re_search True suffix (normalize_company_name s)"
  with normalize_key_form show "normalize_company_name (normalize_company_name s) = normalize_company_name s"
    by (rule key_form_fixpoint)
qed

theorem normalize_idempotent_iff_witness:
  "list_all (\<lambda>suffix. \<not> re_search True suffix (normalize_company_name ''Acme Communications LLC''))
     suffixes
   \<and> normalize_company_name (normalize_company_name ''Acme Communications LLC'')
       = normalize_company_name ''Acme Communications LLC''
   \<and> re_search True suffix4 (normalize_company_name ''dba-foo'')
   \<and> normalize_company_name (normalize_company_name ''dba-foo'') \<noteq> normalize_company_name ''dba-foo''"
proof -
  have c: "list_all (\<lambda>suffix. \<not> re_search True suffix (normalize_company_name ''Acme Communications LLC''))
     suffixes"
    using acme_key_clean by (simp only: acme_strings)
  then have "\<forall>suffix \<in> set suffixes.
      \<not> re_search True suffix (normalize_company_name ''Acme Communications LLC'')"
    by (simp only: list_all_iff)
  with normalize_idempotent_iff[of "''Acme Communications LLC''"]
  have i: "normalize_company_name (normalize_company_name ''Acme Communications LLC'')
       = normalize_company_name ''Acme Communications LLC''"
    by blast
  have m: "re_search True suffix4 (normalize_company_name ''dba-foo'')"
    by (simp only: dba_foo)
  have "suffix4 \<in> set suffixes" by (simp add: suffixes_def)
  with normalize_idempotent_iff[of "''dba-foo''"] m
  have "normalize_company_name (normalize_company_name ''dba-foo'') \<noteq> normalize_company_name ''dba-foo''"
    by blast
  with c i m show ?thesis by blast
qed




text \<open>
  C4 fails on the code. Two filings of one company pass the filter, and the first lacks
  \<^verbatim>\<open>date_received\<close>: its filing record holds \<^verbatim>\<open>None\<close> under that key, the default of the
  sort key is not used, and sorting the two records raises \<^verbatim>\<open>TypeError\<close>; the run does not
  complete.
\<close>

theorem missing_date_raises:
  "structure_data env0 [(fetched acme1 ''1'')(''date_received'' := None), fetched acme2 ''2'']
   = Inl TypeError"
proof -
  have 1: "is_ipes ((fetched acme1 ''1'')(''date_received'' := None))"
    by (rule fetched_ipes)
  have 2: "is_ipes (fetched acme2 ''2'')"
    using fetched_ipes[of acme2 "''2''" "Some ''2023-06-01''"] by (simp only: fetched_acme2)
  show ?thesis
    by (rule undated_run[OF _ _ 1 2]) (simp_all add: fetched_def acme1_def acme2_def)
qed

text \<open>
  C5. The company id is a function of \<^verbatim>\<open>normalized_name\<close> alone: in every run, whatever
  the clock, the history file and the batch, the id of an emitted record is
  \<open>generate_company_id\<close> of its normalized name, so that two records of two runs with the
  same normalized name carry the same id.
\<close>

theorem company_id_deterministic:
  assumes "structure_data e1 fs1 = Inr (cs1, h1)" and "c1 \<in> set cs1"
    and "structure_data e2 fs2 = Inr (cs2, h2)" and "c2 \<in> set cs2"
    and "normalized_name c1 = normalized_name c2"
  shows "company_id c1 = generate_company_id (normalized_name c1)
       \<and> company_id c2 = company_id c1"
proof -
  have *: "company_id c = generate_company_id (normalized_name c)"
    if "structure_data e fs = Inr (cs, h)" "c \<in> set cs" for e fs cs h c
  proof -
    from structure_data_emitted[OF that] obtain cl pf where
      "Company \<lparr>company_id = generate_company_id (fst cl),
                     entity_name = primary_name (fst cl) (snd cl),
                     normalized_name = fst cl, entity_type = ''Company'', is_applicant = True,
                     filing_count = int (length pf), filings = pf, enrichment = []\<rparr> = Inr c"
      by (auto simp: emitted_from_def)
    from Company_InrD(1,3)[OF this] show ?thesis by simp
  qed
  show ?thesis using *[OF assms(1,2)] *[OF assms(3,4)] assms(5) by simp
qed

theorem company_id_deterministic_witness:
  "structure_data env0 [fetched acme1 ''1'', fetched acme2 ''2'']
     = Inr ([acme_company], [Stats (stats_at (now env0) 1 0 [])])
   \<and> acme_company \<in> set [acme_company]
   \<and> structure_data env1 [fetched acme1 ''1'', fetched acme2 ''2'']
     = Inr ([acme_company], [Stats (stats_at (now env1) 1 0 [])])
   \<and> normalized_name acme_company = normalized_name acme_company
   \<and> company_id acme_company = generate_company_id (normalized_name acme_company)"
proof -
  have r0: "structure_data env0 [fetched acme1 ''1'', fetched acme2 ''2'']
     = Inr ([acme_company], [Stats (stats_at (now env0) 1 0 [])])"
    using acme_fetched_run[of env0] by (simp only: load_env0 append_Nil)
  have r1: "structure_data env1 [fetched acme1 ''1'', fetched acme2 ''2'']
     = Inr ([acme_company], [Stats (stats_at (now env1) 1 0 [])])"
    using acme_fetched_run[of env1] by (simp only: load_env1 append_Nil)
  have m: "acme_company \<in> set [acme_company]" by simp
  from company_id_deterministic[OF r0 m r1 m refl] r0 r1 show ?thesis by simp
qed

text \<open>
  C6. Every emitted Company record comes from a cluster that contains a filing whose
  uppercased \<^verbatim>\<open>submission_type\<close> contains APPLICATION, REQUEST or PETITION, and whose
  display name is not classified as an individual; a cluster whose filings all have the
  \<^verbatim>\<open>submission_type\<close> "COMMENT" is the origin of no emitted record.
\<close>

theorem emission_gate:
  assumes "structure_data e fs = Inr (cs, h)"
  shows "(\<forall>c \<in> set cs. \<exists>cf. (normalized_name c, cf) \<in> set (deduplicate (group_filings fs []))
            \<and> (\<exists>f \<in> set cf. contains ''APPLICATION'' (upper (get_or f ''submission_type'' ''''))
                  \<or> contains ''REQUEST'' (upper (get_or f ''submission_type'' ''''))
                  \<or> contains ''PETITION'' (upper (get_or f ''submission_type'' '''')))
            \<and> \<not> is_likely_individual (entity_name c)
            \<and> entity_name c = primary_name (normalized_name c) cf
            \<and> entity_type c = ''Company'' \<and> is_applicant c)
       \<and> (\<forall>k cf. (k, cf) \<in> set (deduplicate (group_filings fs []))
            \<and> (\<forall>f \<in> set cf. f ''submission_type'' = Some ''COMMENT'')
            \<longrightarrow> (\<forall>c \<in> set cs. normalized_name c \<noteq> k))"
proof -
  let ?g = "deduplicate (group_filings fs [])"
  have origin: "\<exists>cf. (normalized_name c, cf) \<in> set ?g
            \<and> (\<exists>f \<in> set cf. is_application_type f)
            \<and> \<not> is_likely_individual (entity_name c)
            \<and> entity_name c = primary_name (normalized_name c) cf
            \<and> entity_type c = ''Company'' \<and> is_applicant c" if "c \<in> set cs" for c
  proof -
    from structure_data_emitted[OF assms that] obtain k cf pf where
      cl: "(k, cf) \<in> set ?g" and app: "list_ex is_application_type cf"
      and ind: "\<not> is_likely_individual (primary_name k cf)"
      and v: "Company \<lparr>company_id = generate_company_id k,
                     entity_name = primary_name k cf,
                     normalized_name = k, entity_type = ''Company'', is_applicant = True,
                     filing_count = int (length pf), filings = pf, enrichment = []\<rparr> = Inr c"
      by (auto simp: emitted_from_def)
    from Company_InrD[OF v] have "entity_name c = primary_name k cf" "normalized_name c = k"
      "entity_type c = ''Company''" "is_applicant c" by simp_all
    then show ?thesis using cl app ind by (auto simp: list_ex_iff)
  qed
  have first: "\<exists>cf. (normalized_name c, cf) \<in> set ?g
            \<and> (\<exists>f \<in> set cf. contains ''APPLICATION'' (upper (get_or f ''submission_type'' ''''))
                  \<or> contains ''REQUEST'' (upper (get_or f ''submission_type'' ''''))
                  \<or> contains ''PETITION'' (upper (get_or f ''submission_type'' '''')))
            \<and> \<not> is_likely_individual (entity_name c)
            \<and> entity_name c = primary_name (normalized_name c) cf
            \<and> entity_type c = ''Company'' \<and> is_applicant c" if "c \<in> set cs" for c
    using origin[OF that] by (simp add: is_application_type_def Let_def)
  have second: "normalized_name c \<noteq> k"
    if "(k, cf) \<in> set ?g" "\<forall>f \<in> set cf. f ''submission_type'' = Some ''COMMENT''" "c \<in> set cs"
    for k cf c
  proof
    assume eq: "normalized_name c = k"
    from origin[OF that(3)] obtain cf' f where
      "(k, cf') \<in> set ?g" "f \<in> set cf'" "is_application_type f"
      unfolding eq by blast
    moreover have "cf' = cf"
      using clusters_distinct[of fs] that(1) \<open>(k, cf') \<in> set ?g\<close>
      by (metis eq_key_imp_eq_value)
    ultimately show False using that(2) comment_not_application by blast
  qed
  show ?thesis using first second by blast
qed

theorem emission_gate_witness:
  "structure_data env0 [fetched acme1 ''1'', fetched acme2 ''2'']
     = Inr ([acme_company], [Stats (stats_at (now env0) 1 0 [])])
   \<and> acme_company \<in> set [acme_company]
   \<and> (\<exists>cf. (normalized_name acme_company, cf)
              \<in> set (deduplicate (group_filings [fetched acme1 ''1'', fetched acme2 ''2''] []))
          \<and> (\<exists>f \<in> set cf. contains ''APPLICATION'' (upper (get_or f ''submission_type'' ''''))
                \<or> contains ''REQUEST'' (upper (get_or f ''submission_type'' ''''))
                \<or> contains ''PETITION'' (upper (get_or f ''submission_type'' '''')))
          \<and> \<not> is_likely_individual (entity_name acme_company)
          \<and> entity_type acme_company = ''Company'' \<and> is_applicant acme_company)
   \<and> (''acme communications'', [(fetched acme2 ''3'')(''submission_type'' \<mapsto> ''COMMENT'')])
        \<in> set (deduplicate (group_filings [(fetched acme2 ''3'')(''submission_type'' \<mapsto> ''COMMENT'')] []))
   \<and> list_all (\<lambda>f. f ''submission_type'' = Some ''COMMENT'')
        [(fetched acme2 ''3'')(''submission_type'' \<mapsto> ''COMMENT'')]
   \<and> structure_data env0 [(fetched acme2 ''3'')(''submission_type'' \<mapsto> ''COMMENT'')]
     = Inr ([], [Stats (stats_at (now env0) 0 0 [])])"
proof -
  let ?z = "(fetched acme2 ''3'')(''submission_type'' \<mapsto> ''COMMENT'')"
  have r0: "structure_data env0 [fetched acme1 ''1'', fetched acme2 ''2'']
     = Inr ([acme_company], [Stats (stats_at (now env0) 1 0 [])])"
    using acme_fetched_run[of env0] by (simp only: load_env0 append_Nil)
  have m: "acme_company \<in> set [acme_company]" by simp
  have z: "?z ''company_name'' = Some ''Acme Communications''" "is_ipes ?z"
      "?z ''submission_type'' = Some ''COMMENT''"
    by (simp_all add: fetched_def acme2_def is_ipes_def get_or_def fetched_voip)
  have rz: "structure_data env0 [?z] = Inr ([], [Stats (stats_at (now env0) 0 0 [])])"
    using comment_run[OF z, of env0] by (simp only: load_env0 append_Nil)
  have cz: "(''acme communications'', [?z]) \<in> set (deduplicate (group_filings [?z] []))"
    unfolding single_cluster[OF z(1,2)] by simp
  from emission_gate[OF r0] m
  have "\<exists>cf. (normalized_name acme_company, cf)
              \<in> set (deduplicate (group_filings [fetched acme1 ''1'', fetched acme2 ''2''] []))
          \<and> (\<exists>f \<in> set cf. contains ''APPLICATION'' (upper (get_or f ''submission_type'' ''''))
                \<or> contains ''REQUEST'' (upper (get_or f ''submission_type'' ''''))
                \<or> contains ''PETITION'' (upper (get_or f ''submission_type'' '''')))
          \<and> \<not> is_likely_individual (entity_name acme_company)
          \<and> entity_type acme_company = ''Company'' \<and> is_applicant acme_company"
    by fastforce
  with r0 m cz rz z(3) show ?thesis by simp
qed

text \<open>
  C7. For every emitted Company record, \<^verbatim>\<open>filing_count\<close> equals the length of its
  \<^verbatim>\<open>filings\<close> list: whenever a run of the core transformation returns, each record of its
  output satisfies the equation.
\<close>

theorem filing_count_is_length:
  assumes "structure_data e fs = Inr (cs, h)" and "c \<in> set cs"
  shows "filing_count c = int (length (filings c))"
proof -
  from assms(1) obtain n elog where
    run: "assemble_all (deduplicate (group_filings fs [])) ([], 0, []) = Inr (cs, n, elog)"
    by (rule structure_dataD)
  let ?P = "\<lambda>st. \<forall>c \<in> set (fst st). filing_count c = int (length (filings c))"
  have "?P (cs, n, elog)"
  proof (rule assemble_all_inv[OF run, where P = ?P])
    show "?P ([], 0, [])" by simp
  next
    fix cl s s' assume P: "?P s" and step: "assemble cl s = Inr s'"
    obtain k cf where cl: "cl = (k, cf)" by (cases cl)
    obtain cs0 n0 l0 where s: "s = (cs0, n0, l0)" by (cases s)
    from step[unfolded cl s] show "?P s'"
    proof (cases rule: assemble_cases)
      case skipped
      then show ?thesis using P s by simp
    next
      case (emitted pf v)
      from Company_InrD(6,7)[OF emitted(5)]
      have "filing_count v = int (length (filings v))" by simp
      then show ?thesis using P s emitted(1) by auto
    next
      case (invalid e)
      then show ?thesis using P s by simp
    qed
  qed
  then show ?thesis using assms(2) by simp
qed

theorem filing_count_is_length_witness:
  "structure_data env0 [fetched acme1 ''1'', fetched acme2 ''2'']
     = Inr ([acme_company], [Stats (stats_at (now env0) 1 0 [])])
   \<and> acme_company \<in> set [acme_company]
   \<and> filing_count acme_company = int (length (filings acme_company))"
proof -
  have r0: "structure_data env0 [fetched acme1 ''1'', fetched acme2 ''2'']
     = Inr ([acme_company], [Stats (stats_at (now env0) 1 0 [])])"
    using acme_fetched_run[of env0] by (simp only: load_env0 append_Nil)
  have m: "acme_company \<in> set [acme_company]" by simp
  from filing_count_is_length[OF r0 m] r0 show ?thesis by simp
qed

text \<open>
  C8. For every emitted Company, the filings are in descending lexicographic order of
  \<^verbatim>\<open>date_received\<close> (a later position never has the greater date), and a filing whose date
  is the empty string stands after every filing with a populated date.
\<close>

theorem filings_sorted_descending:
  assumes "structure_data e fs = Inr (cs, h)" and "c \<in> set cs"
  shows "(\<forall>i j. i < j \<and> j < length (filings c) \<longrightarrow>
            date_received (filings c ! j) \<le> date_received (filings c ! i))
       \<and> (\<forall>i j. i < length (filings c) \<and> j < length (filings c)
            \<and> date_received (filings c ! i) = [] \<and> date_received (filings c ! j) \<noteq> []
            \<longrightarrow> j < i)"
proof -
  from structure_data_emitted[OF assms] obtain cl pf where
    pf: "sort_filings (map filing_record (snd cl)) = Inr pf"
    and v: "Company \<lparr>company_id = generate_company_id (fst cl),
                     entity_name = primary_name (fst cl) (snd cl),
                     normalized_name = fst cl, entity_type = ''Company'', is_applicant = True,
                     filing_count = int (length pf), filings = pf, enrichment = []\<rparr> = Inr c"
    by (auto simp: emitted_from_def)
  have fc: "filings c = map (\<lambda>x. projr (Filing x)) pf"
    using Company_InrD(7)[OF v] by simp
  have "\<forall>x \<in> set pf. \<exists>y. Filing x = Inr y"
    using Company_Inr_filings[OF v] by simp
  from validated_dates[OF this] have "map date_received (filings c)
      = map (\<lambda>x. case date_received x of Some d \<Rightarrow> d | None \<Rightarrow> []) pf"
    unfolding fc .
  with sort_filings_Inr_sorted[OF pf] have srt: "sorted (rev (map date_received (filings c)))"
    by simp
  have desc: "date_received (filings c ! j) \<le> date_received (filings c ! i)"
    if "i < j" "j < length (filings c)" for i j
  proof -
    let ?ds = "map date_received (filings c)"
    let ?n = "length (filings c)"
    have "rev ?ds ! (?n - 1 - j) \<le> rev ?ds ! (?n - 1 - i)"
      using srt that by (intro sorted_nth_mono) auto
    then show ?thesis using that by (simp add: rev_nth)
  qed
  have last: "j < i"
    if "i < length (filings c)" "j < length (filings c)"
      "date_received (filings c ! i) = []" "date_received (filings c ! j) \<noteq> []" for i j
  proof (rule ccontr)
    assume "\<not> j < i"
    then have "i < j \<or> i = j" by auto
    then show False
    proof
      assume "i < j"
      from desc[OF this that(2)] that(3,4) show False by simp
    next
      assume "i = j"
      then show False using that(3,4) by simp
    qed
  qed
  show ?thesis using desc last by blast
qed

theorem filings_sorted_descending_witness:
  "structure_data env0 [(fetched acme1 ''1'')(''date_received'' \<mapsto> ''''),
                        (fetched acme2 ''2'')(''date_received'' \<mapsto> ''2023-06-01'')]
     = Inr ([acme_dated '''' ''2023-06-01''], [Stats (stats_at (now env0) 1 0 [])])
   \<and> acme_dated '''' ''2023-06-01'' \<in> set [acme_dated '''' ''2023-06-01'']
   \<and> (0::nat) < 1 \<and> 1 < length (filings (acme_dated '''' ''2023-06-01''))
   \<and> date_received (filings (acme_dated '''' ''2023-06-01'') ! 1)
       \<le> date_received (filings (acme_dated '''' ''2023-06-01'') ! 0)
   \<and> date_received (filings (acme_dated '''' ''2023-06-01'') ! 1) = []
   \<and> date_received (filings (acme_dated '''' ''2023-06-01'') ! 0) \<noteq> []"
proof -
  have r0: "structure_data env0 [(fetched acme1 ''1'')(''date_received'' \<mapsto> ''''),
                        (fetched acme2 ''2'')(''date_received'' \<mapsto> ''2023-06-01'')]
     = Inr ([acme_dated '''' ''2023-06-01''], [Stats (stats_at (now env0) 1 0 [])])"
    using acme_dated_run[OF acme_dates(2), of env0] by (simp only: load_env0 append_Nil)
  have m: "acme_dated '''' ''2023-06-01'' \<in> set [acme_dated '''' ''2023-06-01'']" by simp
  have l: "(0::nat) < 1 \<and> 1 < length (filings (acme_dated '''' ''2023-06-01''))"
    by (simp add: acme_dated_def)
  have e: "date_received (filings (acme_dated '''' ''2023-06-01'') ! 1) = []
     \<and> date_received (filings (acme_dated '''' ''2023-06-01'') ! 0) \<noteq> []"
    by (simp add: acme_dated_def)
  from filings_sorted_descending[OF r0 m] l
  have "date_received (filings (acme_dated '''' ''2023-06-01'') ! 1)
       \<le> date_received (filings (acme_dated '''' ''2023-06-01'') ! 0)" by blast
  with r0 m l e show ?thesis by blast
qed



text \<open>
  C10. Before anything else, every raw filing passes the topic filter: a run on a batch
  is the run on the batch without the filings that fail the filter, and every filing of
  every cluster is a filing of the batch whose lowercased \<^verbatim>\<open>proceeding_description\<close>
  contains \<open>voip\<close> or \<open>52.15\<close>, or whose lowercased \<^verbatim>\<open>docket_number\<close> contains
  \<open>inbox-52.15\<close>.
\<close>

theorem topic_filter:
  "structure_data e fs = structure_data e (filter is_ipes fs)
   \<and> (\<forall>k cf f. (k, cf) \<in> set (deduplicate (group_filings fs [])) \<and> f \<in> set cf \<longrightarrow>
         f \<in> set fs
         \<and> (contains ''voip'' (lower (get_or f ''proceeding_description'' ''''))
            \<or> contains ''52.15'' (lower (get_or f ''proceeding_description'' ''''))
            \<or> contains ''inbox-52.15'' (lower (get_or f ''docket_number'' ''''))))"
proof -
  have "structure_data e fs = structure_data e (filter is_ipes fs)"
    by (simp add: structure_data_def group_filings_filter)
  moreover have "f \<in> set fs \<and> is_ipes f"
    if "(k, cf) \<in> set (deduplicate (group_filings fs []))" "f \<in> set cf" for k cf f
    using clusters_filings[of fs] that by (auto simp: all_filings_def)
  ultimately show ?thesis by (auto simp: is_ipes_def Let_def)
qed

theorem topic_filter_witness:
  "(''acme communications'', [fetched acme1 ''1'', fetched acme2 ''2''])
     \<in> set (deduplicate (group_filings [fetched acme1 ''1'', fetched acme2 ''2''] []))
   \<and> fetched acme1 ''1'' \<in> set [fetched acme1 ''1'', fetched acme2 ''2'']
   \<and> (contains ''voip'' (lower (get_or (fetched acme1 ''1'') ''proceeding_description'' ''''))
       \<or> contains ''52.15'' (lower (get_or (fetched acme1 ''1'') ''proceeding_description'' ''''))
       \<or> contains ''inbox-52.15'' (lower (get_or (fetched acme1 ''1'') ''docket_number'' '''')))"
proof -
  have c: "(''acme communications'', [fetched acme1 ''1'', fetched acme2 ''2''])
     \<in> set (deduplicate (group_filings [fetched acme1 ''1'', fetched acme2 ''2''] []))"
    unfolding acme_fetched_clusters by simp
  have m: "fetched acme1 ''1'' \<in> set [fetched acme1 ''1'', fetched acme2 ''2'']" by simp
  from topic_filter[of env0 "[fetched acme1 ''1'', fetched acme2 ''2'']"] c m
  have "contains ''voip'' (lower (get_or (fetched acme1 ''1'') ''proceeding_description'' ''''))
       \<or> contains ''52.15'' (lower (get_or (fetched acme1 ''1'') ''proceeding_description'' ''''))
       \<or> contains ''inbox-52.15'' (lower (get_or (fetched acme1 ''1'') ''docket_number'' ''''))"
    by blast
  with c m show ?thesis by blast
qed

end
